theory Spec2Isabelle
  imports Main "HOL-Library.State_Monad"
begin

section \<open>Circuit construction: variables, constraints, build outcomes\<close>

text \<open>
  A \<open>frontend.Variable\<close> is either a constant known when the circuit is built or a wire
  whose value the solver assigns. Both carry their value, a natural number below the
  modulus of the native field.
\<close>

datatype variable = Const nat | Wire nat

fun val :: "variable \<Rightarrow> nat" where
  "val (Const n) = n"
| "val (Wire n) = n"

fun is_Const :: "variable \<Rightarrow> bool" where
  "is_Const (Const n) = True"
| "is_Const (Wire n) = False"

text \<open>
  What a Go \<open>panic\<close> carries: a fixed message, or the two reduced values that
  \<open>AssertIsEqual\<close> formats as \<open>"%s != %s"\<close>.
\<close>

datatype panic_value = Message string | NotEqual nat nat

text \<open>
  The outcome of a circuit-building method: the build aborts (\<open>Panic\<close>), or the method
  returns a value and has emitted a list of assertions, each recorded by its truth under
  the assignment. The circuit is satisfied when every emitted assertion holds.
\<close>

datatype 'a build = Panic panic_value | Emit 'a "bool list"

definition bind_build :: "'a build \<Rightarrow> ('a \<Rightarrow> 'b build) \<Rightarrow> 'b build" where
  "bind_build m k =
     (case m of
        Panic e \<Rightarrow> Panic e
      | Emit x cs \<Rightarrow> (case k x of Panic e \<Rightarrow> Panic e | Emit y cs' \<Rightarrow> Emit y (cs @ cs')))"

fun all_hold :: "bool list \<Rightarrow> bool" where
  "all_hold [] = True"
| "all_hold (c # cs) = (c \<and> all_hold cs)"

fun satisfied :: "'a build \<Rightarrow> bool" where
  "satisfied (Panic e) = False"
| "satisfied (Emit x cs) = all_hold cs"

subsection \<open>The gates of the native field\<close>

text \<open>
  Modelled from the spec: the constraint-system API (\<open>frontend.API\<close>, of which the
  repository's files hold the interface only) offers single-result gates over native
  field elements: addition, subtraction and multiplication modulo the native modulus
  \<open>r\<close>, the zero test, the boolean \<open>Or\<close>, \<open>And\<close> and \<open>Select\<close>, and the equality assertion.
\<close>

definition api_Add :: "nat \<Rightarrow> variable \<Rightarrow> variable \<Rightarrow> variable" where
  "api_Add r i1 i2 = Wire ((val i1 + val i2) mod r)"

definition api_Sub :: "nat \<Rightarrow> variable \<Rightarrow> variable \<Rightarrow> variable" where
  "api_Sub r i1 i2 = Wire ((val i1 + (r - val i2 mod r)) mod r)"

definition api_Mul :: "nat \<Rightarrow> variable \<Rightarrow> variable \<Rightarrow> variable" where
  "api_Mul r i1 i2 = Wire ((val i1 * val i2) mod r)"

definition api_IsZero :: "variable \<Rightarrow> variable" where
  "api_IsZero i1 = Wire (if val i1 = 0 then 1 else 0)"

definition api_Or :: "variable \<Rightarrow> variable \<Rightarrow> variable" where
  "api_Or a b = Wire (if val a = 1 \<or> val b = 1 then 1 else 0)"

definition api_And :: "variable \<Rightarrow> variable \<Rightarrow> variable" where
  "api_And a b = Wire (if val a = 1 \<and> val b = 1 then 1 else 0)"

definition api_Select :: "variable \<Rightarrow> variable \<Rightarrow> variable \<Rightarrow> variable" where
  "api_Select b i1 i2 = Wire (if val b = 1 then val i1 else val i2)"

definition api_AssertIsEqual :: "variable \<Rightarrow> variable \<Rightarrow> bool" where
  "api_AssertIsEqual i1 i2 = (val i1 = val i2)"

text \<open>\<open>big.Int.Bit\<close>: the \<open>i\<close>-th bit of a non-negative integer.\<close>

definition big_Bit :: "nat \<Rightarrow> nat \<Rightarrow> nat" where
  "big_Bit x i = (x div 2 ^ i) mod 2"

text \<open>The number a little-endian list of bit variables stands for.\<close>

fun bits_value :: "variable list \<Rightarrow> nat" where
  "bits_value [] = 0"
| "bits_value (b # bs) = val b + 2 * bits_value bs"

text \<open>A variable that carries a bit.\<close>

definition boolean :: "variable \<Rightarrow> bool" where
  "boolean b = (val b < 2)"

text \<open>
  Modelled from the spec: \<open>bits.ToBinary\<close> with \<open>WithNbDigits(n)\<close> (package
  \<open>std/math/bits\<close>, not among the repository's files) returns \<open>n\<close> boolean wires, least
  significant first, and constrains them to recompose to its argument, which no
  assignment satisfies when the argument needs more than \<open>n\<close> bits. \<open>bits.FromBinary\<close>
  packs bits into one native element (the spec: without range-checking them further).
\<close>

definition bits_ToBinary :: "variable \<Rightarrow> nat \<Rightarrow> variable list \<times> bool" where
  "bits_ToBinary v n = (map (\<lambda>i. Wire (big_Bit (val v) i)) [0..<n], val v < 2 ^ n)"

definition bits_FromBinary :: "nat \<Rightarrow> variable list \<Rightarrow> variable" where
  "bits_FromBinary r bs = Wire (bits_value bs mod r)"

section \<open>The emulated field engine\<close>

subsection \<open>Elements and the field descriptor\<close>

text \<open>
  \<open>Element[T]\<close>: the limbs, least significant first, the overflow (bits of slack above
  the limb width), and the flags \<open>internal\<close> and \<open>modReduced\<close>.
\<close>

record Element =
  Limbs :: "variable list"
  overflow :: nat
  internal :: bool
  modReduced :: bool

text \<open>
  \<open>Field[T]\<close>, the receiver of every method below: the field parameters
  (\<open>fParams.Modulus()\<close>, \<open>NbLimbs()\<close>, \<open>BitsPerLimb()\<close>), the modulus of the native field
  of \<open>api\<close>, and \<open>maxOverflow()\<close>. The methods \<open>enforceWidthConditional\<close>, \<open>Reduce\<close>,
  \<open>ReduceStrict\<close> and \<open>Sub\<close> are called by the code below but defined in files that are
  not part of the repository's sources; they are fields of the record, and every
  theorem states what it assumes of them.
\<close>

record Field =
  Modulus :: nat
  NbLimbs :: nat
  BitsPerLimb :: nat
  nativeModulus :: nat
  maxOverflow :: nat
  enforceWidthConditional :: "Element \<Rightarrow> unit build"
  Reduce :: "Element \<Rightarrow> Element build"
  ReduceStrict :: "Element \<Rightarrow> Element build"
  Sub :: "Element \<Rightarrow> Element \<Rightarrow> Element build"

text \<open>\<open>limbs.Recompose\<close> and \<open>limbs.Decompose\<close>: base \<open>2^nbBits\<close> digits, least significant first.\<close>

fun recompose :: "nat \<Rightarrow> nat list \<Rightarrow> nat" where
  "recompose b [] = 0"
| "recompose b (l # ls) = l + 2 ^ b * recompose b ls"

fun decompose :: "nat \<Rightarrow> nat \<Rightarrow> nat \<Rightarrow> nat list" where
  "decompose b 0 x = []"
| "decompose b (Suc n) x = (x mod 2 ^ b) # decompose b n (x div 2 ^ b)"

text \<open>The integer an element stands for.\<close>

definition element_value :: "Field \<Rightarrow> Element \<Rightarrow> nat" where
  "element_value f a = recompose (BitsPerLimb f) (map val (Limbs a))"

text \<open>
  Modelled from the spec: \<open>constantValue\<close> (an element is a constant when its value is
  known at circuit-build time, that is when every limb is a constant; the value is the
  recomposition of the limbs), \<open>newInternalElement\<close> (an element made by the engine
  itself), \<open>isStrictZero\<close> (the source's comment: the element is on zero limbs), and
  \<open>Modulus()\<close> (the modulus as a constant element of \<open>NbLimbs\<close> limbs).
\<close>

definition constantValue :: "Field \<Rightarrow> Element \<Rightarrow> nat option" where
  "constantValue f a =
     (if list_all is_Const (Limbs a)
      then Some (recompose (BitsPerLimb f) (map val (Limbs a))) else None)"

definition newInternalElement :: "variable list \<Rightarrow> nat \<Rightarrow> Element" where
  "newInternalElement limbs ov =
     \<lparr>Limbs = limbs, overflow = ov, internal = True, modReduced = False\<rparr>"

definition isStrictZero :: "Element \<Rightarrow> bool" where
  "isStrictZero a = (Limbs a = [])"

definition Modulus_element :: "Field \<Rightarrow> Element" where
  "Modulus_element f =
     \<lparr>Limbs = map Const (decompose (BitsPerLimb f) (NbLimbs f) (Modulus f)),
      overflow = 0, internal = True, modReduced = False\<rparr>"

subsection \<open>ToBits, ToBitsCanonical, FromBits\<close>

text \<open>
  The loop of \<open>ToBits\<close> over the limbs of a non-constant element:
  \<^verbatim>\<open>
  for i := 0; i < len(a.Limbs); i++ {
      limbBits = bits.ToBinary(f.api, f.api.Add(a.Limbs[i], carry),
                               bits.WithNbDigits(int(f.fParams.BitsPerLimb()+a.overflow)))
      fullBits = append(fullBits, limbBits[:f.fParams.BitsPerLimb()]...)
      if a.overflow > 0 {
          carry = bits.FromBinary(f.api, limbBits[f.fParams.BitsPerLimb():])
      }
  }\<close>
  The arguments are the native modulus, \<open>BitsPerLimb\<close>, the overflow, the limbs still
  to visit, \<open>carry\<close>, \<open>fullBits\<close>, \<open>limbBits\<close> and the assertions emitted so far.
\<close>

fun ToBits_loop ::
  "nat \<Rightarrow> nat \<Rightarrow> nat \<Rightarrow> variable list \<Rightarrow> variable \<Rightarrow> variable list \<Rightarrow> variable list \<Rightarrow> bool list
   \<Rightarrow> variable list \<times> variable list \<times> bool list" where
  "ToBits_loop r b ov [] carry fullBits limbBits cs = (fullBits, limbBits, cs)"
| "ToBits_loop r b ov (l # ls) carry fullBits limbBits cs =
     (case bits_ToBinary (api_Add r l carry) (b + ov) of
        (limbBits', c) \<Rightarrow>
          ToBits_loop r b ov ls
            (if ov > 0 then bits_FromBinary r (drop b limbBits') else carry)
            (fullBits @ take b limbBits') limbBits' (cs @ [c]))"

definition ToBits :: "Field \<Rightarrow> Element \<Rightarrow> variable list build" where
  "ToBits f a =
     bind_build (enforceWidthConditional f a) (\<lambda>_.
       case constantValue f a of
         Some ba \<Rightarrow>
           Emit (map (\<lambda>i. Const (big_Bit ba i)) [0..<BitsPerLimb f * NbLimbs f]) []
       | None \<Rightarrow>
           (case ToBits_loop (nativeModulus f) (BitsPerLimb f) (overflow a) (Limbs a)
                   (Const 0) [] [] [] of
              (fullBits, limbBits, cs) \<Rightarrow>
                Emit (fullBits @ take (overflow a) (drop (BitsPerLimb f) limbBits)) cs))"

text \<open>\<open>big.Int.BitLen\<close> and \<open>big.Int.TrailingZeroBits\<close> (both 0 at 0).\<close>

fun BitLen :: "nat \<Rightarrow> nat" where
  "BitLen n = (if n = 0 then 0 else Suc (BitLen (n div 2)))"

fun TrailingZeroBits :: "nat \<Rightarrow> nat" where
  "TrailingZeroBits n = (if n = 0 \<or> odd n then 0 else Suc (TrailingZeroBits (n div 2)))"

declare BitLen.simps [simp del] TrailingZeroBits.simps [simp del]

text \<open>
  \<open>ToBitsCanonical\<close>. The comparison \<open>TrailingZeroBits() == uint(nbBits-1)\<close> converts
  \<open>nbBits - 1\<close> to an unsigned number; \<open>nbBits\<close> is 0 only for the modulus 0, where the
  conversion of \<open>-1\<close> differs from every count of trailing zeros.

  The slice \<open>bts[:nbBits]\<close> is bounded by the capacity of \<open>bts\<close>, not by its length.
  \<open>ToBits\<close> makes the slice of a constant with \<open>make\<close>, whose capacity is its length; it
  builds the slice of any other element with \<open>append\<close>, one call for every limb and one
  for the overflow bits, and the capacity these calls leave is chosen by Go's runtime,
  which is no code of the repository: it is the parameter \<open>grow\<close>, a function of the
  number of limbs, of \<open>BitsPerLimb\<close> and of the overflow. The entries between the length
  and the capacity are \<open>nil\<close>, written \<open>None\<close>; beyond the capacity the slice panics.
\<close>

definition ToBitsCanonical ::
  "(nat \<Rightarrow> nat \<Rightarrow> nat \<Rightarrow> nat) \<Rightarrow> Field \<Rightarrow> Element \<Rightarrow> variable option list build" where
  "ToBitsCanonical grow f a =
     (let nbBits0 = BitLen (Modulus f);
          nbBits = (if nbBits0 \<noteq> 0 \<and> TrailingZeroBits (Modulus f) = nbBits0 - 1
                    then nbBits0 - 1 else nbBits0)
      in bind_build (ReduceStrict f a) (\<lambda>ca.
         bind_build (ToBits f ca) (\<lambda>bts.
           let capacity = (case constantValue f ca of
                             Some ba \<Rightarrow> length bts
                           | None \<Rightarrow> grow (length (Limbs ca)) (BitsPerLimb f) (overflow ca))
           in if nbBits \<le> length bts then Emit (map Some (take nbBits bts)) []
              else if nbBits \<le> capacity
              then Emit (map Some bts @ replicate (nbBits - length bts) None) []
              else Panic (Message ''slice bounds out of range''))))"

text \<open>
  \<open>FromBits\<close>. \<open>nbLimbs\<close> is unsigned: the division panics when \<open>BitsPerLimb\<close> is 0, and
  without bits \<open>nbLimbs - 1\<close> wraps around, so that the loop reads \<open>bs[0:BitsPerLimb]\<close>
  of an empty slice and panics.
\<close>

definition FromBits :: "Field \<Rightarrow> variable list \<Rightarrow> Element build" where
  "FromBits f bs =
     (if BitsPerLimb f = 0 then Panic (Message ''integer divide by zero'')
      else
        let nbLimbs = (length bs + BitsPerLimb f - 1) div BitsPerLimb f in
        if nbLimbs = 0 then Panic (Message ''slice bounds out of range'')
        else
          Emit (newInternalElement
                  (map (\<lambda>i. bits_FromBinary (nativeModulus f)
                               (take (BitsPerLimb f) (drop (i * BitsPerLimb f) bs)))
                       [0..<nbLimbs - 1]
                   @ [bits_FromBinary (nativeModulus f) (drop ((nbLimbs - 1) * BitsPerLimb f) bs)])
                  0) [])"

subsection \<open>AssertIsEqual\<close>

text \<open>
  Modelled from the spec: \<open>checkZero\<close> (not among the repository's files) constrains
  its argument to be congruent to 0 modulo the emulated modulus.
\<close>

definition checkZero :: "Field \<Rightarrow> Element \<Rightarrow> unit build" where
  "checkZero f diff = Emit () [element_value f diff mod Modulus f = 0]"

text \<open>
  \<open>AssertIsEqual\<close>. \<open>big.Int.Mod\<close> panics on the modulus 0. For two constants the
  method returns before it reaches \<open>Sub\<close> and \<open>checkZero\<close>.
\<close>

definition AssertIsEqual :: "Field \<Rightarrow> Element \<Rightarrow> Element \<Rightarrow> unit build" where
  "AssertIsEqual f a b =
     bind_build (enforceWidthConditional f a) (\<lambda>_.
     bind_build (enforceWidthConditional f b) (\<lambda>_.
       case (constantValue f a, constantValue f b) of
         (Some ba, Some bb) \<Rightarrow>
           if Modulus f = 0 then Panic (Message ''division by zero'')
           else if ba mod Modulus f \<noteq> bb mod Modulus f
           then Panic (NotEqual (ba mod Modulus f) (bb mod Modulus f))
           else Emit () []
       | _ \<Rightarrow> bind_build (Sub f b a) (\<lambda>diff. checkZero f diff)))"

subsection \<open>AssertIsLessOrEqual\<close>

text \<open>
  The closure \<open>ff\<close> pads \<open>ybits\<close> with zeros at the most significant end up to the
  length of \<open>xbits\<close>; it is only called with \<open>len(xbits) \<ge> len(ybits)\<close>.
\<close>

definition ff :: "variable list \<Rightarrow> variable list \<Rightarrow> variable list" where
  "ff xbits ybits = ybits @ replicate (length xbits - length ybits) (Const 0)"

text \<open>
  The comparison loop runs from the most significant bit down:
  \<^verbatim>\<open>
  p[len(eBits)] = 1
  for i := len(eBits) - 1; i >= 0; i-- {
      v := f.api.Mul(p[i+1], eBits[i])
      p[i] = f.api.Select(aBits[i], v, p[i+1])
      t := f.api.Select(aBits[i], 0, p[i+1])
      l := f.api.Sub(1, t, eBits[i])
      ll := f.api.Mul(l, eBits[i])
      f.api.AssertIsEqual(ll, 0)
  }\<close>
  Step \<open>i\<close> reads \<open>p[i+1]\<close> only, so the array \<open>p\<close> is the running value of the loop; the
  list holds the pairs \<open>(eBits[i], aBits[i])\<close>, most significant first.
\<close>

fun le_loop :: "nat \<Rightarrow> variable \<Rightarrow> (variable \<times> variable) list \<Rightarrow> bool list" where
  "le_loop r p [] = []"
| "le_loop r p ((e, a) # rest) =
     (let v = api_Mul r p e;
          p' = api_Select a v p;
          t = api_Select a (Const 0) p;
          l = api_Sub r (api_Sub r (Const 1) t) e;
          ll = api_Mul r l e
      in api_AssertIsEqual ll (Const 0) # le_loop r p' rest)"

definition AssertIsLessOrEqual :: "Field \<Rightarrow> Element \<Rightarrow> Element \<Rightarrow> unit build" where
  "AssertIsLessOrEqual f e a =
     (if overflow e + overflow a > 0 then Panic (Message ''inputs must have 0 overflow'')
      else
        bind_build (ToBits f e) (\<lambda>eBits.
        bind_build (ToBits f a) (\<lambda>aBits.
          let aBits' = (if length eBits > length aBits then ff eBits aBits else aBits);
              eBits' = (if length eBits > length aBits then eBits else ff aBits eBits)
          in Emit () (le_loop (nativeModulus f) (Const 1) (rev (zip eBits' aBits'))))))"

subsection \<open>IsZero\<close>

text \<open>
  \<open>IsZero\<close>. Reading \<open>ca.Limbs[0]\<close> panics when the reduced element has no limb, and
  reading \<open>p.Limbs[i]\<close> panics when it has more limbs than the modulus.
\<close>

definition IsZero :: "Field \<Rightarrow> Element \<Rightarrow> variable build" where
  "IsZero f a =
     (if isStrictZero a then Emit (Const 1) []
      else
        bind_build (Reduce f a) (\<lambda>ca.
          let p = Modulus_element f; r = nativeModulus f; n = length (Limbs ca) in
          if n = 0 \<or> length (Limbs p) < n then Panic (Message ''index out of range'')
          else
            let res0 =
                  (if int n - 1 > int (maxOverflow f)
                   then fold (\<lambda>i res. api_Mul r res (api_IsZero (Limbs ca ! i))) [1..<n]
                          (api_IsZero (Limbs ca ! 0))
                   else api_IsZero
                          (fold (\<lambda>i limbSum. api_Add r limbSum (Limbs ca ! i)) [1..<n]
                             (Limbs ca ! 0)));
                resP =
                  fold (\<lambda>i res. api_Mul r res (api_IsZero (api_Sub r (Limbs p ! i) (Limbs ca ! i))))
                    [1..<n] (api_IsZero (api_Sub r (Limbs p ! 0) (Limbs ca ! 0)))
            in Emit (api_Or res0 resP) []))"

subsection \<open>Binding a witness value\<close>

text \<open>
  Modelled from the spec: an element created by binding an external witness value has
  \<open>NbLimbs\<close> limbs, the base \<open>2^BitsPerLimb\<close> digits of the value, each on a wire.
\<close>

definition bind_witness :: "Field \<Rightarrow> nat \<Rightarrow> Element" where
  "bind_witness f x =
     \<lparr>Limbs = map Wire (decompose (BitsPerLimb f) (NbLimbs f) x),
      overflow = 0, internal = False, modReduced = False\<rparr>"

subsection \<open>What the theorems assume of elements and of the absent methods\<close>

text \<open>
  The data model's bound on limbs: each limb of an element is below
  \<open>2^(BitsPerLimb + overflow)\<close>; a constant has at most \<open>NbLimbs\<close> limbs.
\<close>

definition limbs_in_width :: "Field \<Rightarrow> Element \<Rightarrow> bool" where
  "limbs_in_width f a =
     (list_all (\<lambda>l. val l < 2 ^ (BitsPerLimb f + overflow a)) (Limbs a)
      \<and> (list_all is_Const (Limbs a) \<longrightarrow> length (Limbs a) \<le> NbLimbs f))"

text \<open>
  The contract of \<open>reduceStrict\<close> in the spec: the result has overflow 0 and limbs of the
  declared width, and its value is the value of the argument reduced modulo the modulus.
\<close>

definition ReduceStrict_contract :: "Field \<Rightarrow> Element \<Rightarrow> Element \<Rightarrow> bool" where
  "ReduceStrict_contract f a ca =
     (overflow ca = 0 \<and> length (Limbs ca) = NbLimbs f \<and> limbs_in_width f ca
      \<and> element_value f ca = element_value f a mod Modulus f)"

text \<open>
  The contract of \<open>reduce\<close> in the spec: the result has overflow 0 and limbs of the
  declared width, and its value is \<open>x\<close> or \<open>x + modulus\<close> for the canonical value \<open>x\<close> of the
  argument.
\<close>

definition Reduce_contract :: "Field \<Rightarrow> Element \<Rightarrow> Element \<Rightarrow> bool" where
  "Reduce_contract f a ca =
     (overflow ca = 0 \<and> length (Limbs ca) = NbLimbs f \<and> limbs_in_width f ca
      \<and> (element_value f ca = element_value f a mod Modulus f
         \<or> element_value f ca = element_value f a mod Modulus f + Modulus f))"

text \<open>
  A small field for concrete evaluation: modulus 13 on two limbs of two bits over the
  native modulus 97, with reductions that return the canonical digits.
\<close>

definition canonical :: "nat \<Rightarrow> nat \<Rightarrow> nat \<Rightarrow> Element" where
  "canonical b n x =
     \<lparr>Limbs = map Wire (decompose b n x), overflow = 0, internal = True, modReduced = False\<rparr>"

definition F13 :: Field where
  "F13 =
     \<lparr>Modulus = 13, NbLimbs = 2, BitsPerLimb = 2, nativeModulus = 97, maxOverflow = 3,
      enforceWidthConditional = (\<lambda>a. Emit () []),
      Reduce = (\<lambda>a. Emit (canonical 2 2 (recompose 2 (map val (Limbs a)) mod 13)) []),
      ReduceStrict = (\<lambda>a. Emit (canonical 2 2 (recompose 2 (map val (Limbs a)) mod 13)) []),
      Sub = (\<lambda>a b. Emit (canonical 2 2
               ((recompose 2 (map val (Limbs a)) + 13 * recompose 2 (map val (Limbs b))
                 - recompose 2 (map val (Limbs b))) mod 13)) [])\<rparr>"

section \<open>The Miller loop counter of the BN254 pairing\<close>

text \<open>
  The package \<open>sw_bn254\<close> fixes the loop counter of the optimal ate pairing as a table
  of 66 signed digits, least significant digit first:
  \<^verbatim>\<open>var loopCounter = [66]int8{0, 0, 0, 1, 0, 1, 0, -1, 0, 0, -1, ...}\<close>
  The comment above the table reads \<open>loopCounter = 6x\<^sub>0+2 = 29793968203157093288\<close>, in 2-NAF.
\<close>

definition loopCounter :: "int list" where
  "loopCounter =
    [0, 0, 0, 1, 0, 1, 0, -1, 0, 0, -1,
     0, 0, 0, 1, 0, 0, -1, 0, -1, 0, 0,
     0, 1, 0, -1, 0, 0, 0, 0, -1, 0, 0,
     1, 0, -1, 0, 0, 1, 0, 0, 0, 0, 0,
     -1, 0, 0, -1, 0, 1, 0, -1, 0, 0, 0,
     -1, 0, -1, 0, 0, 0, 1, 0, -1, 0, 1]"

text \<open>The seed \<open>x\<^sub>0\<close> of the curve BN254.\<close>

definition x0 :: int where
  "x0 = 4965661367192848881"

text \<open>The value of a list of signed digits, least significant first.\<close>

fun signed_value :: "int list \<Rightarrow> int" where
  "signed_value [] = 0"
| "signed_value (d # ds) = d + 2 * signed_value ds"

section \<open>The pairing over BN254\<close>

subsection \<open>The extension tower\<close>

text \<open>
  The structs of \<open>fields_bn254\<close>: \<open>E2\<close> holds two base field elements, \<open>E6\<close> three
  \<open>E2\<close>, \<open>E12\<close> two \<open>E6\<close>; \<open>GTEl\<close> is \<open>E12\<close>. A base field element is given by the
  integer it stands for; the methods below work modulo the emulated modulus \<open>p\<close>.
\<close>

record E2 =
  A0 :: int
  A1 :: int

record E6 =
  B0 :: E2
  B1 :: E2
  B2 :: E2

record E12 =
  C0 :: E6
  C1 :: E6

type_synonym GTEl = E12

text \<open>
  Modelled from the spec: the methods of \<open>curveF\<close>, \<open>Ext2\<close>, \<open>Ext6\<close> and \<open>Ext12\<close> that the
  pairing code calls and the repository's files do not hold. A tower element is a
  composite of emulated elements; \<open>One\<close> and \<open>Zero\<close> are the constants, \<open>Select\<close> is the
  boolean select on every component, \<open>IsZero\<close> tests every component for zero modulo
  \<open>p\<close> (the emulated \<open>IsZero\<close> above), \<open>Add\<close> and \<open>Neg\<close> work on every component, \<open>E2\<close>
  multiplies with \<open>u\<^sup>2 = -1\<close>, and \<open>AssertIsEqual\<close> asserts every component equal modulo
  \<open>p\<close>.
\<close>

definition curveF_One :: int where
  "curveF_One = 1"

definition curveF_Select :: "variable \<Rightarrow> int \<Rightarrow> int \<Rightarrow> int" where
  "curveF_Select selector a b = (if val selector = 1 then a else b)"

definition curveF_IsZero :: "int \<Rightarrow> int \<Rightarrow> variable" where
  "curveF_IsZero p a = Wire (if a mod p = 0 then 1 else 0)"

definition Ext2_Zero :: E2 where
  "Ext2_Zero = \<lparr>A0 = 0, A1 = 0\<rparr>"

definition Ext2_One :: E2 where
  "Ext2_One = \<lparr>A0 = 1, A1 = 0\<rparr>"

definition Ext2_IsZero :: "int \<Rightarrow> E2 \<Rightarrow> variable" where
  "Ext2_IsZero p x = api_And (curveF_IsZero p (A0 x)) (curveF_IsZero p (A1 x))"

definition Ext2_Select :: "variable \<Rightarrow> E2 \<Rightarrow> E2 \<Rightarrow> E2" where
  "Ext2_Select selector x y =
     \<lparr>A0 = curveF_Select selector (A0 x) (A0 y), A1 = curveF_Select selector (A1 x) (A1 y)\<rparr>"

definition Ext2_Add :: "int \<Rightarrow> E2 \<Rightarrow> E2 \<Rightarrow> E2" where
  "Ext2_Add p x y = \<lparr>A0 = (A0 x + A0 y) mod p, A1 = (A1 x + A1 y) mod p\<rparr>"

definition Ext2_Neg :: "int \<Rightarrow> E2 \<Rightarrow> E2" where
  "Ext2_Neg p x = \<lparr>A0 = (- A0 x) mod p, A1 = (- A1 x) mod p\<rparr>"

definition Ext2_Mul :: "int \<Rightarrow> E2 \<Rightarrow> E2 \<Rightarrow> E2" where
  "Ext2_Mul p x y =
     \<lparr>A0 = (A0 x * A0 y - A1 x * A1 y) mod p, A1 = (A0 x * A1 y + A1 x * A0 y) mod p\<rparr>"

definition Ext2_Square :: "int \<Rightarrow> E2 \<Rightarrow> E2" where
  "Ext2_Square p x = Ext2_Mul p x x"

definition Ext2_congruent :: "int \<Rightarrow> E2 \<Rightarrow> E2 \<Rightarrow> bool" where
  "Ext2_congruent p x y = (A0 x mod p = A0 y mod p \<and> A1 x mod p = A1 y mod p)"

definition Ext2_AssertIsEqual :: "int \<Rightarrow> E2 \<Rightarrow> E2 \<Rightarrow> bool list" where
  "Ext2_AssertIsEqual p x y = [A0 x mod p = A0 y mod p, A1 x mod p = A1 y mod p]"

definition Ext6_Zero :: E6 where
  "Ext6_Zero = \<lparr>B0 = Ext2_Zero, B1 = Ext2_Zero, B2 = Ext2_Zero\<rparr>"

definition Ext6_One :: E6 where
  "Ext6_One = \<lparr>B0 = Ext2_One, B1 = Ext2_Zero, B2 = Ext2_Zero\<rparr>"

definition Ext6_IsZero :: "int \<Rightarrow> E6 \<Rightarrow> variable" where
  "Ext6_IsZero p x =
     api_And (api_And (Ext2_IsZero p (B0 x)) (Ext2_IsZero p (B1 x))) (Ext2_IsZero p (B2 x))"

definition Ext6_Select :: "variable \<Rightarrow> E6 \<Rightarrow> E6 \<Rightarrow> E6" where
  "Ext6_Select selector x y =
     \<lparr>B0 = Ext2_Select selector (B0 x) (B0 y), B1 = Ext2_Select selector (B1 x) (B1 y),
      B2 = Ext2_Select selector (B2 x) (B2 y)\<rparr>"

definition Ext6_Add :: "int \<Rightarrow> E6 \<Rightarrow> E6 \<Rightarrow> E6" where
  "Ext6_Add p x y =
     \<lparr>B0 = Ext2_Add p (B0 x) (B0 y), B1 = Ext2_Add p (B1 x) (B1 y),
      B2 = Ext2_Add p (B2 x) (B2 y)\<rparr>"

definition Ext6_Neg :: "int \<Rightarrow> E6 \<Rightarrow> E6" where
  "Ext6_Neg p x = \<lparr>B0 = Ext2_Neg p (B0 x), B1 = Ext2_Neg p (B1 x), B2 = Ext2_Neg p (B2 x)\<rparr>"

definition Ext12_One :: E12 where
  "Ext12_One = \<lparr>C0 = Ext6_One, C1 = Ext6_Zero\<rparr>"

definition Ext12_Select :: "variable \<Rightarrow> E12 \<Rightarrow> E12 \<Rightarrow> E12" where
  "Ext12_Select selector x y =
     \<lparr>C0 = Ext6_Select selector (C0 x) (C0 y), C1 = Ext6_Select selector (C1 x) (C1 y)\<rparr>"

subsection \<open>The receiver of the pairing methods\<close>

text \<open>
  A method of the tower that emits assertions returns its result together with the
  assertions, each recorded by its truth under the assignment.
\<close>

type_synonym 'a gadget = "'a \<times> bool list"

definition bind_gadget :: "'a gadget \<Rightarrow> ('a \<Rightarrow> 'b gadget) \<Rightarrow> 'b gadget" where
  "bind_gadget m k = (case m of (x, cs) \<Rightarrow> (case k x of (y, cs') \<Rightarrow> (y, cs @ cs')))"

text \<open>
  \<open>Pairing\<close>: the modulus of the emulated base field \<open>curveF\<close>, the modulus of the native
  field of \<open>api\<close>, the twist constant \<open>bTwist\<close>, and the division and torus methods of
  \<open>Ext6\<close> and \<open>Ext12\<close>, which \<open>finalExponentiation\<close> calls and the repository's files do
  not hold: they are fields of the record.
\<close>

record Pairing =
  curveF_modulus :: int
  api_modulus :: nat
  bTwist :: E2
  Ext6_DivUnchecked :: "E6 \<Rightarrow> E6 \<Rightarrow> E6 gadget"
  FrobeniusTorus :: "E6 \<Rightarrow> E6 gadget"
  FrobeniusSquareTorus :: "E6 \<Rightarrow> E6 gadget"
  FrobeniusCubeTorus :: "E6 \<Rightarrow> E6 gadget"
  MulTorus :: "E6 \<Rightarrow> E6 \<Rightarrow> E6 gadget"
  SquareTorus :: "E6 \<Rightarrow> E6 gadget"
  InverseTorus :: "E6 \<Rightarrow> E6 gadget"
  ExptTorus :: "E6 \<Rightarrow> E6 gadget"
  DecompressTorus :: "E6 \<Rightarrow> E12 gadget"

subsection \<open>The final exponentiation\<close>

text \<open>
  The statements of \<open>finalExponentiation\<close> between its two branches on \<open>unsafe\<close>: the
  torus compression \<open>c = -e.C0/e.C1\<close>, the rest of the easy part and the hard part,
  on the element \<open>e\<close> as the first branch left it. They leave \<open>t0\<close> and \<open>t2\<close> for the
  last multiplication.
\<close>

definition finalExponentiation_torus :: "Pairing \<Rightarrow> E12 \<Rightarrow> (E6 \<times> E6) gadget" where
  "finalExponentiation_torus pr e =
     bind_gadget (Ext6_DivUnchecked pr (C0 e) (C1 e)) (\<lambda>c.
     let c = Ext6_Neg (curveF_modulus pr) c in
     bind_gadget (FrobeniusSquareTorus pr c) (\<lambda>t0.
     bind_gadget (MulTorus pr t0 c) (\<lambda>c.
     bind_gadget (ExptTorus pr c) (\<lambda>t0.
     bind_gadget (InverseTorus pr t0) (\<lambda>t0.
     bind_gadget (SquareTorus pr t0) (\<lambda>t0.
     bind_gadget (SquareTorus pr t0) (\<lambda>t1.
     bind_gadget (MulTorus pr t0 t1) (\<lambda>t1.
     bind_gadget (ExptTorus pr t1) (\<lambda>t2.
     bind_gadget (InverseTorus pr t2) (\<lambda>t2.
     bind_gadget (InverseTorus pr t1) (\<lambda>t3.
     bind_gadget (MulTorus pr t2 t3) (\<lambda>t1.
     bind_gadget (SquareTorus pr t2) (\<lambda>t3.
     bind_gadget (ExptTorus pr t3) (\<lambda>t4.
     bind_gadget (MulTorus pr t1 t4) (\<lambda>t4.
     bind_gadget (MulTorus pr t0 t4) (\<lambda>t3.
     bind_gadget (MulTorus pr t2 t4) (\<lambda>t0.
     bind_gadget (MulTorus pr c t0) (\<lambda>t0.
     bind_gadget (FrobeniusTorus pr t3) (\<lambda>t2.
     bind_gadget (MulTorus pr t2 t0) (\<lambda>t0.
     bind_gadget (FrobeniusSquareTorus pr t4) (\<lambda>t2.
     bind_gadget (MulTorus pr t2 t0) (\<lambda>t0.
     bind_gadget (InverseTorus pr c) (\<lambda>t2.
     bind_gadget (MulTorus pr t2 t3) (\<lambda>t2.
     bind_gadget (FrobeniusCubeTorus pr t2) (\<lambda>t2.
       ((t0, t2), []))))))))))))))))))))))))))"

text \<open>
  What a call of \<open>finalExponentiation\<close> leaves: the element it returns, the element
  behind the pointer \<open>e\<close> after the call, and the fields of \<open>*e\<close> it assigned.
\<close>

record finalExponentiation_outcome =
  returned :: E12
  input_after :: E12
  assigned :: "string list"

text \<open>
  \<open>finalExponentiation\<close>. The safe branch computes \<open>selector1\<close> and assigns
  \<^verbatim>\<open>e.C1.B0.A0 = *pr.curveF.Select(selector1, pr.curveF.One(), &e.C1.B0.A0)\<close>
  through the pointer; the unsafe branch does nothing before the torus compression.
  The last branch multiplies and decompresses, after the second selector and the two
  selects in the safe variant.
\<close>

definition finalExponentiation :: "Pairing \<Rightarrow> E12 \<Rightarrow> bool \<Rightarrow> finalExponentiation_outcome gadget" where
  "finalExponentiation pr e unsafe =
     (let p = curveF_modulus pr; r = api_modulus pr; dummy = Ext6_One in
      if unsafe then
        bind_gadget (finalExponentiation_torus pr e) (\<lambda>(t0, t2).
        bind_gadget (MulTorus pr t2 t0) (\<lambda>m.
        bind_gadget (DecompressTorus pr m) (\<lambda>d.
          (\<lparr>returned = d, input_after = e, assigned = []\<rparr>, []))))
      else
        let selector1 = Ext6_IsZero p (C1 e);
            e = e\<lparr>C1 := (C1 e)\<lparr>B0 := (B0 (C1 e))
                  \<lparr>A0 := curveF_Select selector1 curveF_One (A0 (B0 (C1 e)))\<rparr>\<rparr>\<rparr>
        in
        bind_gadget (finalExponentiation_torus pr e) (\<lambda>(t0, t2).
          let sum = Ext6_Add p t0 t2;
              selector2 = Ext6_IsZero p sum;
              t0 = Ext6_Select selector2 dummy t0;
              selector = api_Mul r (api_Sub r (Const 1) selector1) (api_Sub r (Const 1) selector2)
          in
          bind_gadget (MulTorus pr t2 t0) (\<lambda>m.
          bind_gadget (DecompressTorus pr m) (\<lambda>d.
            (\<lparr>returned = Ext12_Select selector d Ext12_One, input_after = e,
              assigned = [''C1.B0.A0'']\<rparr>, [])))))"

definition FinalExponentiation :: "Pairing \<Rightarrow> E12 \<Rightarrow> finalExponentiation_outcome gadget" where
  "FinalExponentiation pr e = finalExponentiation pr e False"

definition FinalExponentiationUnsafe :: "Pairing \<Rightarrow> E12 \<Rightarrow> finalExponentiation_outcome gadget" where
  "FinalExponentiationUnsafe pr e = finalExponentiation pr e True"

text \<open>
  The vocabulary of the claims about the two variants. A Miller loop output is
  degenerate when \<open>e.C1\<close> is zero, as for the value 1; the torus product term is
  degenerate when the last two factors \<open>t0\<close> and \<open>t2\<close> add up to zero. \<open>with_dummy e\<close> is
  \<open>e\<close> with the dummy 1 in \<open>C1.B0.A0\<close>.
\<close>

definition degenerate :: "Pairing \<Rightarrow> E12 \<Rightarrow> bool" where
  "degenerate pr e = (val (Ext6_IsZero (curveF_modulus pr) (C1 e)) = 1)"

definition product_degenerate :: "Pairing \<Rightarrow> E12 \<Rightarrow> bool" where
  "product_degenerate pr e =
     (case finalExponentiation_torus pr e of
        ((t0, t2), cs) \<Rightarrow> val (Ext6_IsZero (curveF_modulus pr) (Ext6_Add (curveF_modulus pr) t0 t2)) = 1)"

definition with_dummy :: "E12 \<Rightarrow> E12" where
  "with_dummy e = e\<lparr>C1 := (C1 e)\<lparr>B0 := (B0 (C1 e))\<lparr>A0 := curveF_One\<rparr>\<rparr>\<rparr>"

subsection \<open>Points of the curve and of the twist\<close>

text \<open>
  \<open>G1Affine\<close> holds two base field elements, \<open>g2AffP\<close> two elements of \<open>E2\<close>; both name
  their coordinates \<open>X\<close> and \<open>Y\<close>, and the coordinates of \<open>G1Affine\<close> are written
  \<open>G1Affine.X\<close> and \<open>G1Affine.Y\<close> below.
\<close>

record G1Affine =
  X :: int
  Y :: int

record g2AffP =
  X :: E2
  Y :: E2

record lineEvaluation =
  R0 :: E2
  R1 :: E2

text \<open>
  \<open>lineEvaluations\<close> is the array type \<open>[2][len(loopCounter)]*lineEvaluation\<close>; the code
  reads it at constant first indices 0 and 1 and second indices up to 65.
\<close>

type_synonym lineEvaluations = "nat \<Rightarrow> nat \<Rightarrow> lineEvaluation"

record G2Affine =
  P :: g2AffP
  Lines :: "lineEvaluations option"

text \<open>\<open>computeTwistEquation\<close> and \<open>AssertIsOnTwist\<close>.\<close>

definition computeTwistEquation :: "Pairing \<Rightarrow> G2Affine \<Rightarrow> E2 \<times> E2" where
  "computeTwistEquation pr Q =
     (let p = curveF_modulus pr;
          selector = api_And (Ext2_IsZero p (X (P Q))) (Ext2_IsZero p (Y (P Q)));
          b = Ext2_Select selector Ext2_Zero (bTwist pr);
          left = Ext2_Square p (Y (P Q));
          right = Ext2_Square p (X (P Q));
          right = Ext2_Mul p right (X (P Q));
          right = Ext2_Add p right b
      in (left, right))"

definition AssertIsOnTwist :: "Pairing \<Rightarrow> G2Affine \<Rightarrow> unit gadget" where
  "AssertIsOnTwist pr Q =
     (case computeTwistEquation pr Q of
        (left, right) \<Rightarrow> ((), Ext2_AssertIsEqual (curveF_modulus pr) left right))"

text \<open>
  The statement of the twist check in the spec's words: the point-at-infinity sentinel
  \<open>(0, 0)\<close>, and the twisted Weierstrass equation \<open>Y\<^sup>2 = X\<^sup>3 + b\<close> over \<open>E2\<close>.
\<close>

definition is_infinity :: "int \<Rightarrow> G2Affine \<Rightarrow> bool" where
  "is_infinity p Q =
     (A0 (X (P Q)) mod p = 0 \<and> A1 (X (P Q)) mod p = 0
      \<and> A0 (Y (P Q)) mod p = 0 \<and> A1 (Y (P Q)) mod p = 0)"

definition on_twist :: "int \<Rightarrow> E2 \<Rightarrow> G2Affine \<Rightarrow> bool" where
  "on_twist p b Q =
     Ext2_congruent p (Ext2_Mul p (Y (P Q)) (Y (P Q)))
       (Ext2_Add p (Ext2_Mul p (Ext2_Mul p (X (P Q)) (X (P Q))) (X (P Q))) b)"

text \<open>
  The constant \<open>bTwist\<close> that \<open>NewPairing\<close> sets.
\<close>

definition NewPairing_bTwist :: E2 where
  "NewPairing_bTwist =
     \<lparr>A0 = 19485874751759354771024239261021720505790618469301721065564631296452457478373,
      A1 = 266929791119991161246907387137283842545076965332900288569378510910307636690\<rparr>"

text \<open>
  Modelled from the spec: the pairing is specialised to one curve, BN254, whose
  constants derive from the seed. The modulus of its base field (the type parameter
  \<open>BaseField\<close>, declared outside the repository's files) is the polynomial
  \<open>36x\<^sup>4 + 36x\<^sup>3 + 24x\<^sup>2 + 6x + 1\<close> of the Barreto-Naehrig family at the seed \<open>x\<^sub>0\<close>.
\<close>

definition BN254_base_modulus :: int where
  "BN254_base_modulus = 36 * x0 ^ 4 + 36 * x0 ^ 3 + 24 * x0 ^ 2 + 6 * x0 + 1"

text \<open>
  A small receiver for concrete evaluation: base field modulus 7, native modulus 97,
  twist constant 1, a division that asserts a divisor that is not zero, and torus
  methods that add or negate.
\<close>

definition Pairing7 :: Pairing where
  "Pairing7 =
     \<lparr>curveF_modulus = 7, api_modulus = 97, bTwist = \<lparr>A0 = 1, A1 = 0\<rparr>,
      Ext6_DivUnchecked = (\<lambda>a b. (Ext6_Add 7 a b, [val (Ext6_IsZero 7 b) = 0])),
      FrobeniusTorus = (\<lambda>a. (a, [])),
      FrobeniusSquareTorus = (\<lambda>a. (a, [])),
      FrobeniusCubeTorus = (\<lambda>a. (a, [])),
      MulTorus = (\<lambda>a b. (Ext6_Add 7 a b, [val (Ext6_IsZero 7 (Ext6_Add 7 a b)) = 0])),
      SquareTorus = (\<lambda>a. (Ext6_Add 7 a a, [])),
      InverseTorus = (\<lambda>a. (Ext6_Neg 7 a, [])),
      ExptTorus = (\<lambda>a. (Ext6_Add 7 a a, [])),
      DecompressTorus = (\<lambda>a. (\<lparr>C0 = a, C1 = Ext6_One\<rparr>, []))\<rparr>"

subsection \<open>The Miller loop\<close>

text \<open>
  The methods that \<open>MillerLoop\<close> and \<open>millerLoopLines\<close> call are not among the
  repository's files. Each of them emits constraints into the circuit builder: it is a
  computation over the state of the builder, of a type \<open>'st\<close> left open. \<open>prodLines\<close> is
  the array \<open>[5]*fields_bn254.E2\<close>.
\<close>

type_synonym prodLines = "E2 \<times> E2 \<times> E2 \<times> E2 \<times> E2"

record 'st MillerOps =
  computeLines :: "g2AffP \<Rightarrow> ('st, lineEvaluations) state"
  curveF_Inverse :: "int \<Rightarrow> ('st, int) state"
  curveF_Mul :: "int \<Rightarrow> int \<Rightarrow> ('st, int) state"
  curveF_Neg :: "int \<Rightarrow> ('st, int) state"
  MulByElement :: "E2 \<Rightarrow> int \<Rightarrow> ('st, E2) state"
  Mul034By034 :: "E2 \<Rightarrow> E2 \<Rightarrow> E2 \<Rightarrow> E2 \<Rightarrow> ('st, prodLines) state"
  Mul01234By034 :: "prodLines \<Rightarrow> E2 \<Rightarrow> E2 \<Rightarrow> ('st, E12) state"
  MulBy034 :: "E12 \<Rightarrow> E2 \<Rightarrow> E2 \<Rightarrow> ('st, E12) state"
  MulBy01234 :: "E12 \<Rightarrow> prodLines \<Rightarrow> ('st, E12) state"
  Square :: "E12 \<Rightarrow> ('st, E12) state"

text \<open>A loop that threads an accumulator through the builder.\<close>

fun foldM :: "('a \<Rightarrow> 'b \<Rightarrow> ('st, 'b) state) \<Rightarrow> 'a list \<Rightarrow> 'b \<Rightarrow> ('st, 'b) state" where
  "foldM f [] acc = State_Monad.return acc"
| "foldM f (x # xs) acc = do { acc' \<leftarrow> f x acc; foldM f xs acc' }"

text \<open>
  The precomputation
  \<^verbatim>\<open>
  for k := 0; k < n; k++ {
      yInv[k] = pr.curveF.Inverse(&P[k].Y)
      xNegOverY[k] = pr.curveF.Mul(&P[k].X, yInv[k])
      xNegOverY[k] = pr.curveF.Neg(xNegOverY[k])
  }\<close>
\<close>

fun precompute :: "'st MillerOps \<Rightarrow> G1Affine list \<Rightarrow> ('st, int list \<times> int list) state" where
  "precompute ops [] = State_Monad.return ([], [])"
| "precompute ops (Pk # Ps) = do {
     y \<leftarrow> curveF_Inverse ops (G1Affine.Y Pk);
     x \<leftarrow> curveF_Mul ops (G1Affine.X Pk) y;
     x \<leftarrow> curveF_Neg ops x;
     (yInv, xNegOverY) \<leftarrow> precompute ops Ps;
     State_Monad.return (y # yInv, x # xNegOverY)
   }"

text \<open>
  The pair of arguments that recurs in every multiplication by a line:
  \<^verbatim>\<open>pr.MulByElement(&lines[k][j][i].R0, xNegOverY[k]),
  pr.MulByElement(&lines[k][j][i].R1, yInv[k])\<close>
\<close>

definition line_at ::
  "'st MillerOps \<Rightarrow> lineEvaluations list \<Rightarrow> int list \<Rightarrow> int list \<Rightarrow> nat \<Rightarrow> nat \<Rightarrow> nat
   \<Rightarrow> ('st, E2 \<times> E2) state" where
  "line_at ops lines xNegOverY yInv k j i = do {
     c0 \<leftarrow> MulByElement ops (R0 ((lines ! k) j i)) (xNegOverY ! k);
     c1 \<leftarrow> MulByElement ops (R1 ((lines ! k) j i)) (yInv ! k);
     State_Monad.return (c0, c1)
   }"

text \<open>The two lines of input pair \<open>k\<close> at position \<open>i\<close>, multiplied and folded into \<open>res\<close>.\<close>

definition mul_two_lines ::
  "'st MillerOps \<Rightarrow> lineEvaluations list \<Rightarrow> int list \<Rightarrow> int list \<Rightarrow> nat \<Rightarrow> nat \<Rightarrow> E12
   \<Rightarrow> ('st, E12) state" where
  "mul_two_lines ops lines xNegOverY yInv i k res = do {
     l0 \<leftarrow> line_at ops lines xNegOverY yInv k 0 i;
     l1 \<leftarrow> line_at ops lines xNegOverY yInv k 1 i;
     prodLines \<leftarrow> Mul034By034 ops (fst l0) (snd l0) (fst l1) (snd l1);
     MulBy01234 ops res prodLines
   }"

text \<open>
  One round of the loop \<open>for i := 63; i >= 0; i--\<close>: the square, then by the digit
  \<open>loopCounter[i]\<close> either the last line of an odd number of pairs and the lines two by
  two (\<open>for k := 1; k < n; k += 2\<close>), or both lines of every pair.
\<close>

definition miller_round ::
  "'st MillerOps \<Rightarrow> lineEvaluations list \<Rightarrow> int list \<Rightarrow> int list \<Rightarrow> nat \<Rightarrow> nat \<Rightarrow> E12
   \<Rightarrow> ('st, E12) state" where
  "miller_round ops lines xNegOverY yInv n i res = do {
     res \<leftarrow> Square ops res;
     if loopCounter ! i = 0 then do {
       res \<leftarrow> (if n mod 2 \<noteq> 0 then do {
                 l \<leftarrow> line_at ops lines xNegOverY yInv (n - 1) 0 i;
                 MulBy034 ops res (fst l) (snd l)
               } else State_Monad.return res);
       foldM (\<lambda>k res. do {
                l0 \<leftarrow> line_at ops lines xNegOverY yInv k 0 i;
                l1 \<leftarrow> line_at ops lines xNegOverY yInv (k - 1) 0 i;
                prodLines \<leftarrow> Mul034By034 ops (fst l0) (snd l0) (fst l1) (snd l1);
                MulBy01234 ops res prodLines
              }) (filter odd [1..<n]) res
     } else foldM (mul_two_lines ops lines xNegOverY yInv i) [0..<n] res
   }"

text \<open>
  \<open>millerLoopLines\<close>: the check of the input sizes, then the precomputation, the first
  lines at position 64 (one, two, three or more pairs), the 64 rounds, and the two
  correction lines at position 65. The only other \<open>return\<close> is the last statement,
  \<open>return res, nil\<close>.
\<close>

definition millerLoopLines ::
  "'st MillerOps \<Rightarrow> G1Affine list \<Rightarrow> lineEvaluations list \<Rightarrow> ('st, string + GTEl) state" where
  "millerLoopLines ops Ps lines =
     (let n = length Ps in
      if n = 0 \<or> n \<noteq> length lines then State_Monad.return (Inl ''invalid inputs sizes'')
      else do {
        (yInv, xNegOverY) \<leftarrow> precompute ops Ps;
        let res = Ext12_One;
        l \<leftarrow> line_at ops lines xNegOverY yInv 0 0 64;
        let res = \<lparr>C0 = C0 res, C1 = \<lparr>B0 = fst l, B1 = snd l, B2 = B2 (C1 res)\<rparr>\<rparr>;
        res \<leftarrow> (if n \<ge> 2 then do {
                  l \<leftarrow> line_at ops lines xNegOverY yInv 1 0 64;
                  prodLines \<leftarrow> Mul034By034 ops (fst l) (snd l) (B0 (C1 res)) (B1 (C1 res));
                  let res = (case prodLines of (p0, p1, p2, p3, p4) \<Rightarrow>
                               \<lparr>C0 = \<lparr>B0 = p0, B1 = p1, B2 = p2\<rparr>,
                                C1 = \<lparr>B0 = p3, B1 = p4, B2 = B2 (C1 res)\<rparr>\<rparr>);
                  if n \<ge> 3 then do {
                    l \<leftarrow> line_at ops lines xNegOverY yInv 2 0 64;
                    res \<leftarrow> Mul01234By034 ops prodLines (fst l) (snd l);
                    foldM (\<lambda>k res. do {
                             l \<leftarrow> line_at ops lines xNegOverY yInv k 0 64;
                             MulBy034 ops res (fst l) (snd l)
                           }) [3..<n] res
                  } else State_Monad.return res
                } else State_Monad.return res);
        res \<leftarrow> foldM (miller_round ops lines xNegOverY yInv n) (rev [0..<64]) res;
        res \<leftarrow> foldM (mul_two_lines ops lines xNegOverY yInv 65) [0..<n] res;
        State_Monad.return (Inr res)
      })"

text \<open>
  The loop of \<open>MillerLoop\<close> over \<open>Q\<close>: a point without precomputed lines gets them from
  \<open>computeLines\<close>, stored through the pointer \<open>Q[i].Lines\<close>.
\<close>

fun prepare_lines ::
  "'st MillerOps \<Rightarrow> G2Affine list \<Rightarrow> ('st, G2Affine list \<times> lineEvaluations list) state" where
  "prepare_lines ops [] = State_Monad.return ([], [])"
| "prepare_lines ops (Qi # Qs) = do {
     Qlines \<leftarrow> (case Lines Qi of
                  None \<Rightarrow> computeLines ops (P Qi)
                | Some ls \<Rightarrow> State_Monad.return ls);
     (Qs', lines) \<leftarrow> prepare_lines ops Qs;
     State_Monad.return (Qi\<lparr>Lines := Some Qlines\<rparr> # Qs', Qlines # lines)
   }"

text \<open>
  \<open>MillerLoop\<close> returns the element or the error, and leaves the points \<open>Q\<close> with their
  lines.
\<close>

definition MillerLoop ::
  "'st MillerOps \<Rightarrow> G1Affine list \<Rightarrow> G2Affine list
   \<Rightarrow> ('st, (string + GTEl) \<times> G2Affine list) state" where
  "MillerLoop ops Ps Qs =
     (let n = length Ps in
      if n = 0 \<or> n \<noteq> length Qs then State_Monad.return (Inl ''invalid inputs sizes'', Qs)
      else do {
        (Qs', lines) \<leftarrow> prepare_lines ops Qs;
        res \<leftarrow> millerLoopLines ops Ps lines;
        State_Monad.return (res, Qs')
      })"

text \<open>
  Methods for concrete evaluation: the state of the builder counts the calls, and every
  method returns its first argument or a constant.
\<close>

definition tick :: "'a \<Rightarrow> (nat, 'a) state" where
  "tick x = State (\<lambda>s. (x, Suc s))"

definition counting_ops :: "nat MillerOps" where
  "counting_ops =
     \<lparr>computeLines = (\<lambda>q. tick (\<lambda>j i. \<lparr>R0 = X q, R1 = Y q\<rparr>)),
      curveF_Inverse = (\<lambda>a. tick a),
      curveF_Mul = (\<lambda>a b. tick a),
      curveF_Neg = (\<lambda>a. tick a),
      MulByElement = (\<lambda>a b. tick a),
      Mul034By034 = (\<lambda>a b c d. tick (a, b, c, d, a)),
      Mul01234By034 = (\<lambda>pl a b. tick Ext12_One),
      MulBy034 = (\<lambda>z a b. tick z),
      MulBy01234 = (\<lambda>z pl. tick z),
      Square = (\<lambda>z. tick z)\<rparr>"

text \<open>
  A computation returns no error when, from every state of the builder, its result is a
  value and not an error.
\<close>

definition returns_no_error :: "('st, string + 'a) state \<Rightarrow> bool" where
  "returns_no_error m = (\<forall>s. \<exists>r s'. run_state m s = (Inr r, s'))"

section \<open>Bits, limbs and the loop of ToBits\<close>

lemma bits_value_append:
  "bits_value (xs @ ys) = bits_value xs + 2 ^ length xs * bits_value ys"
  by (induction xs) (simp_all add: algebra_simps)

lemma bits_value_Wire_bits:
  "bits_value (map (\<lambda>i. Wire (big_Bit v i)) [0..<n]) = v mod 2 ^ n"
proof (induction n)
  case 0
  show ?case by simp
next
  case (Suc n)
  have "v mod (2 ^ n * 2) = 2 ^ n * (v div 2 ^ n mod 2) + v mod 2 ^ n"
    by (rule mod_mult2_eq)
  then show ?case using Suc
    by (simp add: bits_value_append big_Bit_def mult.commute)
qed

lemma bits_value_Const_bits:
  "bits_value (map (\<lambda>i. Const (big_Bit v i)) [0..<n]) = v mod 2 ^ n"
proof (induction n)
  case 0
  show ?case by simp
next
  case (Suc n)
  have "v mod (2 ^ n * 2) = 2 ^ n * (v div 2 ^ n mod 2) + v mod 2 ^ n"
    by (rule mod_mult2_eq)
  then show ?case using Suc
    by (simp add: bits_value_append big_Bit_def mult.commute)
qed

lemma bits_value_bound:
  "list_all boolean bs \<Longrightarrow> bits_value bs < 2 ^ length bs"
  by (induction bs) (auto simp: boolean_def)

lemma bits_value_take:
  "list_all boolean bs \<Longrightarrow> bits_value (take k bs) = bits_value bs mod 2 ^ k"
proof (induction bs arbitrary: k)
  case Nil
  show ?case by simp
next
  case (Cons b bs)
  show ?case
  proof (cases k)
    case 0
    then show ?thesis by simp
  next
    case (Suc j)
    have b: "val b < 2" using Cons.prems by (simp add: boolean_def)
    have "(val b + 2 * bits_value bs) mod (2 * 2 ^ j)
        = 2 * ((val b + 2 * bits_value bs) div 2 mod 2 ^ j) + (val b + 2 * bits_value bs) mod 2"
      by (rule mod_mult2_eq)
    also have "\<dots> = 2 * (bits_value bs mod 2 ^ j) + val b"
      using b by simp
    finally show ?thesis using Cons Suc by simp
  qed
qed

lemma recompose_append:
  "recompose b (xs @ ys) = recompose b xs + 2 ^ (b * length xs) * recompose b ys"
  by (induction xs) (simp_all add: algebra_simps power_add)

lemma length_decompose [simp]: "length (decompose b n x) = n"
  by (induction n arbitrary: x) simp_all

lemma decompose_bounded: "list_all (\<lambda>l. l < 2 ^ b) (decompose b n x)"
  by (induction n arbitrary: x) simp_all

lemma recompose_decompose: "recompose b (decompose b n x) = x mod 2 ^ (b * n)"
proof (induction n arbitrary: x)
  case 0
  show ?case by simp
next
  case (Suc n)
  have "x mod (2 ^ b * 2 ^ (b * n)) = 2 ^ b * (x div 2 ^ b mod 2 ^ (b * n)) + x mod 2 ^ b"
    by (rule mod_mult2_eq)
  then show ?case using Suc by (simp add: power_add)
qed

lemma recompose_bound:
  "list_all (\<lambda>l. l < 2 ^ b) ls \<Longrightarrow> recompose b ls < 2 ^ (b * length ls)"
proof (induction ls)
  case Nil
  show ?case by simp
next
  case (Cons l ls)
  then have l: "l < 2 ^ b" and r: "recompose b ls < 2 ^ (b * length ls)" by simp_all
  from r have "recompose b ls + 1 \<le> 2 ^ (b * length ls)" by simp
  then have "2 ^ b * (recompose b ls + 1) \<le> 2 ^ b * 2 ^ (b * length ls)"
    by (rule mult_le_mono2)
  then show ?case using l by (simp add: power_add)
qed

lemma recompose_unique:
  "list_all (\<lambda>l. l < 2 ^ b) xs \<Longrightarrow> list_all (\<lambda>l. l < 2 ^ b) ys \<Longrightarrow> length xs = length ys
   \<Longrightarrow> recompose b xs = recompose b ys \<Longrightarrow> xs = ys"
proof (induction xs arbitrary: ys)
  case Nil
  then show ?case by simp
next
  case (Cons x xs)
  then obtain y ys' where ys: "ys = y # ys'" by (cases ys) auto
  have x: "x < 2 ^ b" and y: "y < 2 ^ b" using Cons.prems ys by simp_all
  have eq: "x + 2 ^ b * recompose b xs = y + 2 ^ b * recompose b ys'"
    using Cons.prems ys by simp
  have "(x + 2 ^ b * recompose b xs) mod 2 ^ b = x" using x by simp
  moreover have "(y + 2 ^ b * recompose b ys') mod 2 ^ b = y" using y by simp
  ultimately have xy: "x = y" using eq by simp
  then have "recompose b xs = recompose b ys'" using eq by simp
  then have "xs = ys'" using Cons.IH [of ys'] Cons.prems ys by simp
  then show ?case using xy ys by simp
qed

lemma recompose_zero:
  "recompose b ls = 0 \<longleftrightarrow> list_all (\<lambda>l. l = 0) ls"
  by (induction ls) auto

lemma ToBinary_length: "length (fst (bits_ToBinary v n)) = n"
  by (simp add: bits_ToBinary_def)

lemma ToBinary_low:
  "bits_value (take b (fst (bits_ToBinary v (b + ov)))) = val v mod 2 ^ b"
  by (simp add: bits_ToBinary_def take_map bits_value_Wire_bits)

lemma ToBinary_value:
  "bits_value (fst (bits_ToBinary v n)) = val v mod 2 ^ n"
  by (simp add: bits_ToBinary_def bits_value_Wire_bits)

lemma ToBinary_high:
  "bits_value (drop b (fst (bits_ToBinary v (b + ov)))) = (val v mod 2 ^ (b + ov)) div 2 ^ b"
proof -
  let ?bs = "fst (bits_ToBinary v (b + ov))"
  have "bits_value (take b ?bs @ drop b ?bs) = val v mod 2 ^ (b + ov)"
    by (simp add: ToBinary_value)
  then have "val v mod 2 ^ b + 2 ^ b * bits_value (drop b ?bs) = val v mod 2 ^ (b + ov)"
    by (simp only: bits_value_append ToBinary_low) (simp add: ToBinary_length)
  then have "(val v mod 2 ^ (b + ov)) div 2 ^ b
      = (val v mod 2 ^ b + 2 ^ b * bits_value (drop b ?bs)) div 2 ^ b"
    by simp
  also have "\<dots> = bits_value (drop b ?bs)"
    by simp
  finally show ?thesis by simp
qed

lemma ToBits_loop_lengths:
  "ToBits_loop r b ov ls carry fb lb cs = (FB, LB, CS) \<Longrightarrow>
   length FB = length fb + length ls * b
   \<and> length LB = (if ls = [] then length lb else b + ov)
   \<and> length CS = length cs + length ls"
proof (induction ls arbitrary: carry fb lb cs)
  case Nil
  then show ?case by simp
next
  case (Cons l ls)
  obtain bs c where bc: "bits_ToBinary (api_Add r l carry) (b + ov) = (bs, c)"
    by (cases "bits_ToBinary (api_Add r l carry) (b + ov)")
  have len: "length bs = b + ov"
    using ToBinary_length [of "api_Add r l carry" "b + ov"] bc by simp
  from Cons.prems bc
  have "ToBits_loop r b ov ls (if ov > 0 then bits_FromBinary r (drop b bs) else carry)
          (fb @ take b bs) bs (cs @ [c]) = (FB, LB, CS)"
    by simp
  from Cons.IH [OF this] len show ?case
    by (cases ls) simp_all
qed

lemma all_hold_append [simp]: "all_hold (xs @ ys) = (all_hold xs \<and> all_hold ys)"
  by (induction xs) simp_all


lemma ToBits_loop_cs:
  "ToBits_loop r b ov ls carry fb lb cs = (FB, LB, CS) \<Longrightarrow> all_hold CS \<Longrightarrow> all_hold cs"
proof (induction ls arbitrary: carry fb lb cs)
  case Nil
  then show ?case by simp
next
  case (Cons l ls)
  obtain bs c where bc: "bits_ToBinary (api_Add r l carry) (b + ov) = (bs, c)"
    by (cases "bits_ToBinary (api_Add r l carry) (b + ov)")
  from Cons.prems(1) bc
  have "ToBits_loop r b ov ls (if ov > 0 then bits_FromBinary r (drop b bs) else carry)
          (fb @ take b bs) bs (cs @ [c]) = (FB, LB, CS)"
    by simp
  from Cons.IH [OF this Cons.prems(2)] show ?case by simp
qed

lemma ToBits_loop_value:
  assumes r: "2 ^ (b + ov) + 2 ^ ov \<le> r + 1"
  shows "list_all (\<lambda>l. val l < 2 ^ (b + ov)) ls \<Longrightarrow> ls \<noteq> [] \<Longrightarrow> val carry < 2 ^ ov \<Longrightarrow>
    ToBits_loop r b ov ls carry fb lb cs = (FB, LB, CS) \<Longrightarrow> all_hold CS \<Longrightarrow>
    bits_value FB + 2 ^ length FB * bits_value (take ov (drop b LB))
      = bits_value fb + 2 ^ length fb * (val carry + recompose b (map val ls))"
proof (induction ls arbitrary: carry fb lb cs)
  case Nil
  then show ?case by simp
next
  case (Cons l ls)
  let ?v = "val l + val carry"
  obtain bs c where bc: "bits_ToBinary (api_Add r l carry) (b + ov) = (bs, c)"
    by (cases "bits_ToBinary (api_Add r l carry) (b + ov)")
  let ?carry' = "if ov > 0 then bits_FromBinary r (drop b bs) else carry"
  have step: "ToBits_loop r b ov ls ?carry' (fb @ take b bs) bs (cs @ [c]) = (FB, LB, CS)"
    using Cons.prems(4) bc by simp
  have l: "val l < 2 ^ (b + ov)" using Cons.prems(1) by simp
  have vr: "?v < r" using l Cons.prems(3) r by linarith
  then have v: "val (api_Add r l carry) = ?v" by (simp add: api_Add_def)
  have "all_hold (cs @ [c])" using ToBits_loop_cs [OF step Cons.prems(5)] .
  then have c by simp
  then have vb: "?v < 2 ^ (b + ov)" using bc v by (simp add: bits_ToBinary_def)
  then have "?v < 2 ^ b * 2 ^ ov" by (simp add: power_add)
  then have hi: "?v div 2 ^ b < 2 ^ ov"
    by (simp add: less_mult_imp_div_less mult.commute)
  have len: "length bs = b + ov"
    using ToBinary_length [of "api_Add r l carry" "b + ov"] bc by simp
  define m where "m = ?v mod 2 ^ b"
  define d where "d = ?v div 2 ^ b"
  have split: "m + 2 ^ b * d = val l + val carry" by (simp add: m_def d_def)
  have low: "bits_value (take b bs) = m"
    using ToBinary_low [of b "api_Add r l carry" ov] bc v by (simp add: m_def)
  have high: "bits_value (drop b bs) = d"
    using ToBinary_high [of b "api_Add r l carry" ov] bc v vb by (simp add: d_def)
  have le: "(2::nat) ^ ov \<le> 2 ^ (b + ov)" by simp
  have "(1::nat) \<le> 2 ^ ov" by simp
  then have "d < r" using hi le r unfolding d_def by linarith
  then have carry': "val ?carry' = d"
    using high hi Cons.prems(3) by (auto simp: bits_FromBinary_def d_def)
  show ?case
  proof (cases ls)
    case Nil
    then have "FB = fb @ take b bs" "LB = bs" using step by auto
    then have "bits_value FB + 2 ^ length FB * bits_value (take ov (drop b LB))
        = bits_value fb + 2 ^ length fb * m + 2 ^ length fb * (2 ^ b * d)"
      using len low high by (simp add: bits_value_append power_add)
    also have "\<dots> = bits_value fb + 2 ^ length fb * (m + 2 ^ b * d)"
      by (simp add: algebra_simps)
    finally show ?thesis using Nil by (simp add: split add.commute)
  next
    case (Cons l' ls')
    then have ne: "ls \<noteq> []" by simp
    have all: "list_all (\<lambda>l. val l < 2 ^ (b + ov)) ls" using Cons.prems(1) by simp
    have "val ?carry' < 2 ^ ov" using carry' hi by (simp add: d_def)
    from Cons.IH [OF all ne this step Cons.prems(5)]
    have "bits_value FB + 2 ^ length FB * bits_value (take ov (drop b LB))
        = bits_value (fb @ take b bs)
          + 2 ^ length (fb @ take b bs) * (d + recompose b (map val ls))"
      using carry' by simp
    also have "\<dots> = bits_value fb + 2 ^ length fb * (m + 2 ^ b * d)
          + 2 ^ length fb * (2 ^ b * recompose b (map val ls))"
      using len low by (simp add: bits_value_append power_add algebra_simps)
    also have "\<dots> = bits_value fb
          + 2 ^ length fb * (val l + val carry + 2 ^ b * recompose b (map val ls))"
      by (simp only: split) (simp add: algebra_simps)
    finally show ?thesis by (simp add: algebra_simps)
  qed
qed

lemma ToBits_loop_sat0:
  assumes r: "2 ^ b \<le> r"
  shows "list_all (\<lambda>l. val l < 2 ^ b) ls \<Longrightarrow> val carry = 0 \<Longrightarrow> all_hold cs \<Longrightarrow>
    ToBits_loop r b 0 ls carry fb lb cs = (FB, LB, CS) \<Longrightarrow> all_hold CS"
proof (induction ls arbitrary: fb lb cs)
  case Nil
  then show ?case by simp
next
  case (Cons l ls)
  obtain bs c where bc: "bits_ToBinary (api_Add r l carry) (b + 0) = (bs, c)"
    by (cases "bits_ToBinary (api_Add r l carry) (b + 0)")
  have step: "ToBits_loop r b 0 ls carry (fb @ take b bs) bs (cs @ [c]) = (FB, LB, CS)"
    using Cons.prems(4) bc by simp
  have l: "val l < 2 ^ b" using Cons.prems(1) by simp
  then have "val (api_Add r l carry) = val l"
    using r Cons.prems(2) by (simp add: api_Add_def)
  then have c using bc l by (simp add: bits_ToBinary_def)
  then have "all_hold (cs @ [c])" using Cons.prems(3) by simp
  from Cons.IH [OF _ Cons.prems(2) this step] Cons.prems(1) show ?case by simp
qed

lemma boolean_Wire_bit [simp]: "boolean (Wire (big_Bit v i))"
  by (simp add: boolean_def big_Bit_def)

lemma boolean_Const_bit [simp]: "boolean (Const (big_Bit v i))"
  by (simp add: boolean_def big_Bit_def)

lemma ToBinary_boolean: "list_all boolean (fst (bits_ToBinary v n))"
  by (simp add: bits_ToBinary_def list_all_iff)

lemma ToBits_loop_boolean:
  "ToBits_loop r b ov ls carry fb lb cs = (FB, LB, CS) \<Longrightarrow> list_all boolean fb \<Longrightarrow>
   list_all boolean lb \<Longrightarrow> list_all boolean FB \<and> list_all boolean LB"
proof (induction ls arbitrary: carry fb lb cs)
  case Nil
  then show ?case by simp
next
  case (Cons l ls)
  obtain bs c where bc: "bits_ToBinary (api_Add r l carry) (b + ov) = (bs, c)"
    by (cases "bits_ToBinary (api_Add r l carry) (b + ov)")
  have bs: "list_all boolean bs"
    using ToBinary_boolean [of "api_Add r l carry" "b + ov"] bc by simp
  then have tk: "list_all boolean (fb @ take b bs)"
    using Cons.prems(2) by (auto simp: list_all_iff dest: in_set_takeD)
  from Cons.prems(1) bc
  have "ToBits_loop r b ov ls (if ov > 0 then bits_FromBinary r (drop b bs) else carry)
          (fb @ take b bs) bs (cs @ [c]) = (FB, LB, CS)"
    by simp
  from Cons.IH [OF this tk bs] show ?case .
qed

lemma ToBits_constant:
  assumes "enforceWidthConditional f a = Emit () cs0" "list_all is_Const (Limbs a)"
  shows "ToBits f a =
     Emit (map (\<lambda>i. Const (big_Bit (element_value f a) i)) [0..<BitsPerLimb f * NbLimbs f]) cs0"
  using assms by (simp add: ToBits_def bind_build_def constantValue_def element_value_def)

lemma ToBits_variable:
  assumes "enforceWidthConditional f a = Emit () cs0" "\<not> list_all is_Const (Limbs a)"
    and "ToBits_loop (nativeModulus f) (BitsPerLimb f) (overflow a) (Limbs a) (Const 0) [] [] []
           = (FB, LB, CS)"
  shows "ToBits f a = Emit (FB @ take (overflow a) (drop (BitsPerLimb f) LB)) (cs0 @ CS)"
  using assms by (simp add: ToBits_def bind_build_def constantValue_def)

lemma ToBits_properties:
  assumes ewc: "enforceWidthConditional f a = Emit () cs0"
  shows "\<exists>bits cs. ToBits f a = Emit bits (cs0 @ cs) \<and> list_all boolean bits
    \<and> (if list_all is_Const (Limbs a)
       then length bits = BitsPerLimb f * NbLimbs f \<and> cs = []
            \<and> bits_value bits = element_value f a mod 2 ^ (BitsPerLimb f * NbLimbs f)
       else length bits = length (Limbs a) * BitsPerLimb f + overflow a
            \<and> length cs = length (Limbs a)
            \<and> (list_all (\<lambda>l. val l < 2 ^ (BitsPerLimb f + overflow a)) (Limbs a)
                 \<and> 2 ^ (BitsPerLimb f + overflow a) + 2 ^ overflow a \<le> nativeModulus f + 1
                 \<and> all_hold cs
                \<longrightarrow> bits_value bits = element_value f a)
            \<and> (overflow a = 0 \<and> list_all (\<lambda>l. val l < 2 ^ BitsPerLimb f) (Limbs a)
                 \<and> 2 ^ BitsPerLimb f \<le> nativeModulus f \<longrightarrow> all_hold cs))"
proof (cases "list_all is_Const (Limbs a)")
  case True
  show ?thesis
    using ToBits_constant [OF ewc True] True
    by (simp add: bits_value_Const_bits list_all_iff)
next
  case False
  let ?r = "nativeModulus f" and ?b = "BitsPerLimb f" and ?ov = "overflow a"
  obtain FB LB CS where loop:
    "ToBits_loop ?r ?b ?ov (Limbs a) (Const 0) [] [] [] = (FB, LB, CS)"
    by (cases "ToBits_loop ?r ?b ?ov (Limbs a) (Const 0) [] [] []") auto
  have ne: "Limbs a \<noteq> []" using False by auto
  let ?bits = "FB @ take ?ov (drop ?b LB)"
  have tb: "ToBits f a = Emit ?bits (cs0 @ CS)"
    using ToBits_variable [OF ewc False loop] .
  have lens: "length FB = length (Limbs a) * ?b" "length LB = ?b + ?ov"
    "length CS = length (Limbs a)"
    using ToBits_loop_lengths [OF loop] ne by simp_all
  have "list_all boolean FB \<and> list_all boolean LB"
    using ToBits_loop_boolean [OF loop] by simp
  then have bool: "list_all boolean ?bits"
    by (auto simp: list_all_iff dest: in_set_takeD in_set_dropD)
  have val_eq: "bits_value ?bits = element_value f a"
    if "list_all (\<lambda>l. val l < 2 ^ (?b + ?ov)) (Limbs a)"
      "2 ^ (?b + ?ov) + 2 ^ ?ov \<le> ?r + 1" "all_hold CS"
  proof -
    have "bits_value FB + 2 ^ length FB * bits_value (take ?ov (drop ?b LB))
        = bits_value [] + 2 ^ length ([]::variable list)
            * (val (Const 0) + recompose ?b (map val (Limbs a)))"
      by (rule ToBits_loop_value [OF that(2) that(1) ne _ loop that(3)]) simp
    then show ?thesis by (simp add: bits_value_append element_value_def)
  qed
  have sat: "all_hold CS"
    if "?ov = 0" "list_all (\<lambda>l. val l < 2 ^ ?b) (Limbs a)" "2 ^ ?b \<le> ?r"
    using ToBits_loop_sat0 [OF that(3) that(2), of "Const 0" "[]" "[]" "[]" FB LB CS] loop that(1)
    by simp
  show ?thesis using tb bool lens val_eq sat False by auto
qed

lemma BitLen_upper: "n < 2 ^ BitLen n"
proof (induction n rule: BitLen.induct)
  case (1 n)
  show ?case
  proof (cases "n = 0")
    case True
    then show ?thesis by (simp add: BitLen.simps)
  next
    case False
    then have "n div 2 < 2 ^ BitLen (n div 2)" using 1 by simp
    then have "n < 2 * 2 ^ BitLen (n div 2)" by linarith
    then show ?thesis using False by (subst BitLen.simps) simp
  qed
qed

lemma BitLen_lower: "0 < n \<Longrightarrow> 2 ^ (BitLen n - 1) \<le> n"
proof (induction n rule: BitLen.induct)
  case (1 n)
  show ?case
  proof (cases "n div 2 = 0")
    case True
    then have "n = 1" using "1.prems" by linarith
    then show ?thesis by (simp add: BitLen.simps)
  next
    case False
    then have ih: "2 ^ (BitLen (n div 2) - 1) \<le> n div 2" using 1 by simp
    have pos: "0 < BitLen (n div 2)" using False by (subst BitLen.simps) simp
    have "BitLen n = Suc (BitLen (n div 2))" using "1.prems" by (subst BitLen.simps) simp
    then have "(2::nat) ^ (BitLen n - 1) = 2 * 2 ^ (BitLen (n div 2) - 1)"
      using pos by (cases "BitLen (n div 2)") simp_all
    then show ?thesis using ih by linarith
  qed
qed

lemma BitLen_le: "n < 2 ^ k \<Longrightarrow> BitLen n \<le> k"
proof (rule ccontr)
  assume n: "n < 2 ^ k" and "\<not> BitLen n \<le> k"
  then have k: "k \<le> BitLen n - 1" and pos: "0 < n"
    by (auto simp: BitLen.simps [of n] split: if_splits)
  have "(2::nat) ^ k \<le> 2 ^ (BitLen n - 1)" using k by (rule power_increasing) simp
  then show False using BitLen_lower [OF pos] n by linarith
qed

lemma BitLen_ge2: "1 < n \<Longrightarrow> 2 \<le> BitLen n"
proof (rule ccontr)
  assume n: "1 < n" and "\<not> 2 \<le> BitLen n"
  then have "BitLen n \<le> 1" by simp
  then have "(2::nat) ^ BitLen n \<le> 2 ^ 1" by (rule power_increasing) simp
  then show False using BitLen_upper [of n] n by simp
qed

lemma chunks_value:
  "recompose b (map (\<lambda>i. bits_value (take b (drop (i * b) bs))) [0..<k]
                @ [bits_value (drop (k * b) bs)]) = bits_value bs"
proof (induction k arbitrary: bs)
  case 0
  show ?case by simp
next
  case (Suc k)
  have "map (\<lambda>i. bits_value (take b (drop (i * b) bs))) [0..<Suc k]
      = bits_value (take b bs)
        # map (\<lambda>i. bits_value (take b (drop (i * b) (drop b bs)))) [0..<k]"
    by (simp add: upt_conv_Cons map_Suc_upt [symmetric] add.commute del: upt_Suc)
  moreover have "drop (Suc k * b) bs = drop (k * b) (drop b bs)"
    by (simp add: add.commute)
  ultimately have "recompose b (map (\<lambda>i. bits_value (take b (drop (i * b) bs))) [0..<Suc k]
                @ [bits_value (drop (Suc k * b) bs)])
      = bits_value (take b bs) + 2 ^ b * bits_value (drop b bs)"
    using Suc [of "drop b bs"] by simp
  also have "\<dots> = bits_value bs"
  proof (cases "b \<le> length bs")
    case True
    have "bits_value (take b bs @ drop b bs) = bits_value (take b bs)
        + 2 ^ length (take b bs) * bits_value (drop b bs)"
      by (rule bits_value_append)
    then show ?thesis using True by simp
  next
    case False
    then show ?thesis by simp
  qed
  finally show ?case .
qed

lemma FromBits_value:
  assumes b: "0 < BitsPerLimb f" and r: "2 ^ BitsPerLimb f \<le> nativeModulus f"
    and bs: "bs \<noteq> []" "list_all boolean bs"
  shows "\<exists>e. FromBits f bs = Emit e [] \<and> element_value f e = bits_value bs
          \<and> overflow e = 0
          \<and> length (Limbs e) = (length bs + BitsPerLimb f - 1) div BitsPerLimb f"
proof -
  let ?b = "BitsPerLimb f" and ?r = "nativeModulus f"
  let ?n = "(length bs + ?b - 1) div ?b"
  have "0 < length bs" using bs by simp
  then have "?b \<le> length bs + ?b - 1" by linarith
  then have n: "0 < ?n" using b by (simp add: div_greater_zero_iff)
  have small: "bits_value cs mod ?r = bits_value cs"
    if "list_all boolean cs" "length cs \<le> ?b" for cs
  proof -
    have "bits_value cs < 2 ^ length cs" using that(1) by (rule bits_value_bound)
    also have "(2::nat) ^ length cs \<le> 2 ^ ?b" using that(2) by (rule power_increasing) simp
    finally show ?thesis using r by simp
  qed
  have bool: "list_all boolean (take i (drop j bs))" "list_all boolean (drop j bs)" for i j
    using bs(2) by (auto simp: list_all_iff dest: in_set_takeD in_set_dropD)
  have "(length bs + ?b - 1) mod ?b < ?b" using b by simp
  moreover have "?n * ?b + (length bs + ?b - 1) mod ?b = length bs + ?b - 1"
    by simp
  ultimately have "length bs \<le> ?n * ?b" by linarith
  moreover obtain k where k: "?n = Suc k" using n by (cases ?n) auto
  ultimately have "length bs \<le> k * ?b + ?b" by simp
  then have last: "length (drop ((?n - 1) * ?b) bs) \<le> ?b" using k by simp
  let ?limbs = "map (\<lambda>i. bits_FromBinary ?r (take ?b (drop (i * ?b) bs))) [0..<?n - 1]
                @ [bits_FromBinary ?r (drop ((?n - 1) * ?b) bs)]"
  have "map val ?limbs = map (\<lambda>i. bits_value (take ?b (drop (i * ?b) bs))) [0..<?n - 1]
                @ [bits_value (drop ((?n - 1) * ?b) bs)]"
    using small bool last by (simp add: bits_FromBinary_def)
  then have "recompose ?b (map val ?limbs) = bits_value bs"
    by (simp only: chunks_value)
  moreover have "FromBits f bs = Emit (newInternalElement ?limbs 0) []"
    using b n by (simp add: FromBits_def Let_def)
  ultimately show ?thesis using n
    by (simp add: element_value_def newInternalElement_def)
qed

lemma BitLen_pos: "0 < n \<Longrightarrow> BitLen n = Suc (BitLen (n div 2))"
  by (subst BitLen.simps) simp

lemma TrailingZeroBits_power_of_two:
  "0 < n \<Longrightarrow> TrailingZeroBits n = BitLen n - 1 \<longleftrightarrow> n = 2 ^ (BitLen n - 1)"
proof (induction n rule: BitLen.induct)
  case (1 n)
  show ?case
  proof (cases "odd n")
    case True
    then have tz: "TrailingZeroBits n = 0" by (subst TrailingZeroBits.simps) simp
    show ?thesis
    proof (cases "n = 1")
      case True
      then show ?thesis using tz by (simp add: BitLen.simps)
    next
      case False
      then have "1 < n" using "1.prems" by simp
      then have "2 \<le> BitLen n" by (rule BitLen_ge2)
      then obtain k where k: "BitLen n - 1 = Suc k" by (cases "BitLen n - 1") auto
      then have "even ((2::nat) ^ (BitLen n - 1))" by simp
      then have "n \<noteq> 2 ^ (BitLen n - 1)" using True by metis
      then show ?thesis using tz k by simp
    qed
  next
    case False
    then have pos: "0 < n div 2" using "1.prems" by (auto elim: evenE)
    have n2: "n = 2 * (n div 2)" using False by simp
    have tz: "TrailingZeroBits n = Suc (TrailingZeroBits (n div 2))"
      using False "1.prems" by (subst TrailingZeroBits.simps) simp
    have bl: "BitLen n - 1 = Suc (BitLen (n div 2) - 1)"
      using BitLen_pos [OF "1.prems"] BitLen_pos [OF pos] by simp
    have ih: "TrailingZeroBits (n div 2) = BitLen (n div 2) - 1
        \<longleftrightarrow> n div 2 = 2 ^ (BitLen (n div 2) - 1)"
      using 1 pos by simp
    have "n = 2 ^ (BitLen n - 1) \<longleftrightarrow> 2 * (n div 2) = 2 * 2 ^ (BitLen (n div 2) - 1)"
      using n2 bl by simp
    also have "\<dots> \<longleftrightarrow> n div 2 = 2 ^ (BitLen (n div 2) - 1)" by simp
    finally show ?thesis using tz bl ih by simp
  qed
qed

lemma element_value_bind_witness:
  "element_value f (bind_witness f x) = x mod 2 ^ (BitsPerLimb f * NbLimbs f)"
  by (simp add: element_value_def bind_witness_def comp_def recompose_decompose)

section \<open>The comparison loop\<close>

lemma boolean_cases: "boolean b \<Longrightarrow> val b = 0 \<or> val b = 1"
  by (auto simp: boolean_def)

lemma le_loop_step:
  assumes r: "1 < r" and p: "boolean p" and e: "boolean e" and a: "boolean a"
  shows "le_loop r p ((e, a) # rest)
     = (\<not> (val e = 1 \<and> val a = 0 \<and> val p = 1))
       # le_loop r (Wire (if val a = 1 then val p * val e else val p)) rest"
proof -
  have m: "(r - Suc 0) mod r = r - Suc 0" "(Suc r) mod r = 1" "r - Suc 0 \<noteq> 0"
    "\<not> r dvd (r - Suc 0)"
    using r by (simp_all add: mod_Suc nat_dvd_not_less)
  show ?thesis
    using boolean_cases [OF p] boolean_cases [OF e] boolean_cases [OF a] r m
    by (auto simp: Let_def api_Mul_def api_Select_def api_Sub_def api_AssertIsEqual_def)
qed

lemma bits_value_snoc: "bits_value (bs @ [b]) = bits_value bs + 2 ^ length bs * val b"
  by (simp add: bits_value_append)

lemma le_loop_correct:
  assumes r: "1 < r"
  shows "list_all (\<lambda>(e, a). boolean e \<and> boolean a) ps \<Longrightarrow> boolean p \<Longrightarrow>
    all_hold (le_loop r p ps)
      \<longleftrightarrow> (val p = 0 \<or> bits_value (rev (map fst ps)) \<le> bits_value (rev (map snd ps)))"
proof (induction ps arbitrary: p)
  case Nil
  then show ?case by simp
next
  case (Cons q ps)
  obtain e a where q: "q = (e, a)" by (cases q)
  have e: "boolean e" and a: "boolean a" using Cons.prems(1) q by simp_all
  have rest: "list_all (\<lambda>(e, a). boolean e \<and> boolean a) ps" using Cons.prems(1) by simp
  let ?p' = "Wire (if val a = 1 then val p * val e else val p)"
  let ?E = "bits_value (rev (map fst ps))" and ?A = "bits_value (rev (map snd ps))"
  have bp': "boolean ?p'"
    using boolean_cases [OF Cons.prems(2)] boolean_cases [OF e] by (auto simp: boolean_def)
  have "list_all boolean (rev (map fst ps))" "list_all boolean (rev (map snd ps))"
    using rest by (auto simp: list_all_iff)
  then have bound: "?E < 2 ^ length ps" "?A < 2 ^ length ps"
    using bits_value_bound [of "rev (map fst ps)"] bits_value_bound [of "rev (map snd ps)"]
    by simp_all
  have ih: "all_hold (le_loop r ?p' ps) \<longleftrightarrow> (val ?p' = 0 \<or> ?E \<le> ?A)"
    using Cons.IH [OF rest bp'] .
  have step: "le_loop r p (q # ps)
      = (\<not> (val e = 1 \<and> val a = 0 \<and> val p = 1)) # le_loop r ?p' ps"
    unfolding q by (rule le_loop_step [OF r Cons.prems(2) e a])
  have "all_hold (le_loop r p (q # ps))
      \<longleftrightarrow> \<not> (val e = 1 \<and> val a = 0 \<and> val p = 1) \<and> (val ?p' = 0 \<or> ?E \<le> ?A)"
    by (simp only: step all_hold.simps ih)
  also have "\<dots> \<longleftrightarrow> (val p = 0
      \<or> ?E + 2 ^ length ps * val e \<le> ?A + 2 ^ length ps * val a)"
    using boolean_cases [OF Cons.prems(2)] boolean_cases [OF e] boolean_cases [OF a] bound
    by auto
  finally show ?case by (simp add: q bits_value_snoc)
qed

lemma ToBits_zero_overflow:
  assumes ewc: "enforceWidthConditional f a = Emit () cs0"
    and ov: "overflow a = 0" and w: "limbs_in_width f a"
    and r: "2 ^ BitsPerLimb f \<le> nativeModulus f"
  shows "\<exists>bits cs. ToBits f a = Emit bits (cs0 @ cs) \<and> all_hold cs \<and> list_all boolean bits
    \<and> bits_value bits = element_value f a"
proof -
  let ?b = "BitsPerLimb f" and ?N = "NbLimbs f"
  have limbs: "list_all (\<lambda>l. val l < 2 ^ ?b) (Limbs a)"
    using w ov by (simp add: limbs_in_width_def)
  then have "list_all (\<lambda>l. l < 2 ^ ?b) (map val (Limbs a))"
    by (simp add: list_all_iff)
  then have bound: "element_value f a < 2 ^ (?b * length (Limbs a))"
    using recompose_bound [of ?b "map val (Limbs a)"] by (simp add: element_value_def)
  have small: "element_value f a mod 2 ^ (?b * ?N) = element_value f a"
    if "list_all is_Const (Limbs a)"
  proof -
    have "length (Limbs a) \<le> ?N" using w that by (simp add: limbs_in_width_def)
    then have "?b * length (Limbs a) \<le> ?b * ?N" by simp
    then have "(2::nat) ^ (?b * length (Limbs a)) \<le> 2 ^ (?b * ?N)"
      by (rule power_increasing) simp
    with bound have "element_value f a < 2 ^ (?b * ?N)" by (rule order.strict_trans2)
    then show ?thesis by simp
  qed
  obtain bits cs where tb: "ToBits f a = Emit bits (cs0 @ cs)" and bool: "list_all boolean bits"
    and alt: "if list_all is_Const (Limbs a)
       then length bits = ?b * ?N \<and> cs = []
            \<and> bits_value bits = element_value f a mod 2 ^ (?b * ?N)
       else length bits = length (Limbs a) * ?b + overflow a
            \<and> length cs = length (Limbs a)
            \<and> (list_all (\<lambda>l. val l < 2 ^ (?b + overflow a)) (Limbs a)
                 \<and> 2 ^ (?b + overflow a) + 2 ^ overflow a \<le> nativeModulus f + 1
                 \<and> all_hold cs
                \<longrightarrow> bits_value bits = element_value f a)
            \<and> (overflow a = 0 \<and> list_all (\<lambda>l. val l < 2 ^ ?b) (Limbs a)
                 \<and> 2 ^ ?b \<le> nativeModulus f \<longrightarrow> all_hold cs)"
    using ToBits_properties [OF ewc] by blast
  have "all_hold cs \<and> bits_value bits = element_value f a"
    using alt limbs ov r small by (auto split: if_splits)
  then show ?thesis using tb bool by blast
qed

lemma ff_properties:
  assumes "list_all boolean ybits"
  shows "list_all boolean (ff xbits ybits)" "bits_value (ff xbits ybits) = bits_value ybits"
    "length (ff xbits ybits) = max (length xbits) (length ybits)"
proof -
  have "bits_value (replicate n (Const 0)) = 0" for n by (induction n) simp_all
  then show "bits_value (ff xbits ybits) = bits_value ybits"
    by (simp add: ff_def bits_value_append)
  show "list_all boolean (ff xbits ybits)"
    using assms by (auto simp: ff_def list_all_iff boolean_def)
  show "length (ff xbits ybits) = max (length xbits) (length ybits)"
    by (simp add: ff_def)
qed

section \<open>Zero tests over the limbs\<close>

lemma fold_Mul_IsZero:
  assumes r: "1 < r"
  shows "val acc = 0 \<or> val acc = 1 \<Longrightarrow>
    val (fold (\<lambda>i res. api_Mul r res (api_IsZero (g i))) is acc)
      = (if val acc = 1 \<and> (\<forall>i\<in>set is. val (g i) = 0) then 1 else 0)"
proof (induction "is" arbitrary: acc)
  case Nil
  then show ?case by auto
next
  case (Cons i "is")
  let ?acc' = "api_Mul r acc (api_IsZero (g i))"
  have v: "val ?acc' = (if val acc = 1 \<and> val (g i) = 0 then 1 else 0)"
    using Cons.prems r by (auto simp: api_Mul_def api_IsZero_def)
  then have "val ?acc' = 0 \<or> val ?acc' = 1" by simp
  from Cons.IH [OF this] show ?case using v by auto
qed

lemma fold_Add:
  "val acc < r \<Longrightarrow>
    val (fold (\<lambda>i s. api_Add r s (g i)) is acc)
      = (val acc + sum_list (map (\<lambda>i. val (g i)) is)) mod r"
proof (induction "is" arbitrary: acc)
  case Nil
  then show ?case by simp
next
  case (Cons i "is")
  have "val (api_Add r acc (g i)) < r" using Cons.prems by (simp add: api_Add_def)
  from Cons.IH [OF this] show ?case
    by (simp add: api_Add_def mod_add_left_eq add.assoc)
qed

lemma upt_from_one: "0 < n \<Longrightarrow> [0..<n] = 0 # [1..<n]"
  by (simp add: upt_conv_Cons)

lemma all_indices:
  assumes "0 < length xs"
  shows "(holds (xs ! 0) \<and> (\<forall>i\<in>set [1..<length xs]. holds (xs ! i))) \<longleftrightarrow> list_all holds xs"
proof -
  have "list_all holds xs \<longleftrightarrow> (\<forall>i<length xs. holds (xs ! i))"
    by (simp add: list_all_length)
  also have "\<dots> \<longleftrightarrow> (\<forall>i\<in>set [0..<length xs]. holds (xs ! i))" by auto
  also have "\<dots> \<longleftrightarrow> (holds (xs ! 0) \<and> (\<forall>i\<in>set [1..<length xs]. holds (xs ! i)))"
    by (simp only: upt_from_one [OF assms]) simp
  finally show ?thesis by simp
qed

lemma sum_indices:
  assumes "0 < length xs"
  shows "h (xs ! 0) + sum_list (map (\<lambda>i. h (xs ! i)) [1..<length xs]) = sum_list (map h xs)"
proof -
  have "map h (map (\<lambda>i. xs ! i) [0..<length xs]) = map (\<lambda>i. h (xs ! i)) [0..<length xs]"
    by (simp add: comp_def)
  then have "map h xs = map (\<lambda>i. h (xs ! i)) [0..<length xs]"
    by (simp only: map_nth)
  also have "\<dots> = h (xs ! 0) # map (\<lambda>i. h (xs ! i)) [1..<length xs]"
    by (simp only: upt_from_one [OF assms]) simp
  finally show ?thesis by simp
qed

lemma sum_list_bound:
  "list_all (\<lambda>x. x < B) xs \<Longrightarrow> xs \<noteq> [] \<Longrightarrow> sum_list xs < length xs * (B::nat)"
proof (induction xs)
  case Nil
  then show ?case by simp
next
  case (Cons x xs)
  show ?case
  proof (cases "xs = []")
    case True
    then show ?thesis using Cons.prems by simp
  next
    case False
    then have "sum_list xs < length xs * B" using Cons by simp
    then show ?thesis using Cons.prems by simp
  qed
qed

lemma le_power_pred: "0 < n \<Longrightarrow> n \<le> 2 ^ (n - 1)"
proof (induction n)
  case 0
  then show ?case by simp
next
  case (Suc n)
  show ?case
  proof (cases n)
    case 0
    then show ?thesis by simp
  next
    case (Suc m)
    then have "n \<le> 2 ^ (n - 1)" using Suc.IH by simp
    moreover have "(1::nat) \<le> 2 ^ (n - 1)" by simp
    moreover have "(2::nat) ^ (Suc n - 1) = 2 * 2 ^ (n - 1)" using Suc by simp
    ultimately show ?thesis by linarith
  qed
qed

lemma api_Sub_zero:
  assumes "val x < r" "val y < r"
  shows "val (api_Sub r x y) = 0 \<longleftrightarrow> val x = val y"
proof -
  have "(val x + (r - val y)) mod r = 0 \<longleftrightarrow> val x = val y"
  proof
    assume "(val x + (r - val y)) mod r = 0"
    then have d: "r dvd val x + (r - val y)" by (simp add: dvd_eq_mod_eq_0)
    show "val x = val y"
    proof (rule ccontr)
      assume ne: "val x \<noteq> val y"
      show False
      proof (cases "val x < val y")
        case True
        then have "0 < val x + (r - val y)" "val x + (r - val y) < r" using assms by simp_all
        then show False using d by (simp add: nat_dvd_not_less)
      next
        case False
        then have eq: "val x + (r - val y) = r + (val x - val y)"
          and pos: "0 < val x - val y" and lt: "val x - val y < r"
          using assms ne by simp_all
        have "r dvd r + (val x - val y)" using d eq by simp
        then have "r dvd val x - val y" by simp
        then show False using pos lt by (simp add: nat_dvd_not_less)
      qed
    qed
  next
    assume "val x = val y"
    then show "(val x + (r - val y)) mod r = 0" using assms by simp
  qed
  then show ?thesis using assms by (simp add: api_Sub_def)
qed

lemma all_from_one:
  "0 < n \<Longrightarrow> (holds 0 \<and> (\<forall>i\<in>set [1..<n]. holds i)) \<longleftrightarrow> (\<forall>i<n. holds (i::nat))"
proof -
  assume n: "0 < n"
  have "(\<forall>i<n. holds i) \<longleftrightarrow> (\<forall>i\<in>set [0..<n]. holds i)" by auto
  also have "\<dots> \<longleftrightarrow> (holds 0 \<and> (\<forall>i\<in>set [1..<n]. holds i))"
    by (simp only: upt_from_one [OF n]) simp
  finally show ?thesis by simp
qed

lemma res0_value:
  assumes r: "1 < r" "2 ^ b \<le> r" "2 ^ (b + mo) \<le> r"
    and ls: "ls \<noteq> []" "list_all (\<lambda>l. val l < 2 ^ b) ls"
  shows "val (if int (length ls) - 1 > int mo
              then fold (\<lambda>i res. api_Mul r res (api_IsZero (ls ! i))) [1..<length ls]
                     (api_IsZero (ls ! 0))
              else api_IsZero
                     (fold (\<lambda>i limbSum. api_Add r limbSum (ls ! i)) [1..<length ls] (ls ! 0)))
         = (if list_all (\<lambda>l. val l = 0) ls then 1 else 0)"
proof (cases "int (length ls) - 1 > int mo")
  case True
  have n: "0 < length ls" using ls(1) by simp
  have "val (fold (\<lambda>i res. api_Mul r res (api_IsZero (ls ! i))) [1..<length ls]
          (api_IsZero (ls ! 0)))
      = (if val (api_IsZero (ls ! 0)) = 1 \<and> (\<forall>i\<in>set [1..<length ls]. val (ls ! i) = 0)
         then 1 else 0)"
    by (rule fold_Mul_IsZero [OF r(1)]) (simp add: api_IsZero_def)
  also have "\<dots> = (if val (ls ! 0) = 0 \<and> (\<forall>i\<in>set [1..<length ls]. val (ls ! i) = 0)
         then 1 else 0)"
    by (simp add: api_IsZero_def)
  also have "\<dots> = (if list_all (\<lambda>l. val l = 0) ls then 1 else 0)"
    by (simp only: all_indices [OF n, of "\<lambda>l. val l = 0"])
  finally show ?thesis using True by simp
next
  case False
  have n: "0 < length ls" using ls(1) by simp
  have bounded: "list_all (\<lambda>x. x < 2 ^ b) (map val ls)" using ls(2) by (simp add: list_all_iff)
  have first: "val (ls ! 0) < r"
    using ls r(2) by (cases ls) auto
  have "sum_list (map val ls) < length ls * 2 ^ b"
    using sum_list_bound [OF bounded] ls(1) by simp
  also have "\<dots> \<le> 2 ^ (length ls - 1) * 2 ^ b"
    using le_power_pred [OF n] by simp
  also have "\<dots> = 2 ^ (length ls - 1 + b)" by (simp add: power_add)
  also have "\<dots> \<le> 2 ^ (b + mo)"
    using False by (intro power_increasing) simp_all
  finally have small: "sum_list (map val ls) < r" using r(3) by simp
  have "val (fold (\<lambda>i limbSum. api_Add r limbSum (ls ! i)) [1..<length ls] (ls ! 0))
      = (val (ls ! 0) + sum_list (map (\<lambda>i. val (ls ! i)) [1..<length ls])) mod r"
    by (rule fold_Add [OF first])
  also have "\<dots> = sum_list (map val ls)"
    using small by (simp only: sum_indices [OF n, of val]) simp
  finally have "val (api_IsZero
        (fold (\<lambda>i limbSum. api_Add r limbSum (ls ! i)) [1..<length ls] (ls ! 0)))
      = (if sum_list (map val ls) = 0 then 1 else 0)"
    by (simp add: api_IsZero_def)
  also have "\<dots> = (if list_all (\<lambda>l. val l = 0) ls then 1 else 0)"
    by (simp add: list_all_iff)
  finally show ?thesis using False by simp
qed

lemma resP_value:
  assumes r: "1 < r" "2 ^ b \<le> r"
    and len: "length pl = length ls" "ls \<noteq> []"
    and bound: "list_all (\<lambda>l. val l < 2 ^ b) ls" "list_all (\<lambda>l. val l < 2 ^ b) pl"
  shows "val (fold (\<lambda>i res. api_Mul r res (api_IsZero (api_Sub r (pl ! i) (ls ! i))))
                [1..<length ls] (api_IsZero (api_Sub r (pl ! 0) (ls ! 0))))
         = (if map val pl = map val ls then 1 else 0)"
proof -
  let ?g = "\<lambda>i. api_Sub r (pl ! i) (ls ! i)"
  have n: "0 < length ls" using len(2) by simp
  have z: "val (?g i) = 0 \<longleftrightarrow> val (pl ! i) = val (ls ! i)" if "i < length ls" for i
  proof -
    have "val (pl ! i) < 2 ^ b" "val (ls ! i) < 2 ^ b"
      using bound that len(1) by (simp_all add: list_all_length)
    then have "val (pl ! i) < r" "val (ls ! i) < r" using r(2) by simp_all
    then show ?thesis by (rule api_Sub_zero)
  qed
  have "val (fold (\<lambda>i res. api_Mul r res (api_IsZero (?g i))) [1..<length ls]
          (api_IsZero (?g 0)))
      = (if val (api_IsZero (?g 0)) = 1 \<and> (\<forall>i\<in>set [1..<length ls]. val (?g i) = 0)
         then 1 else 0)"
    by (rule fold_Mul_IsZero [OF r(1)]) (simp add: api_IsZero_def)
  also have "\<dots> = (if val (?g 0) = 0 \<and> (\<forall>i\<in>set [1..<length ls]. val (?g i) = 0)
         then 1 else 0)"
    by (simp add: api_IsZero_def)
  also have "\<dots> = (if \<forall>i<length ls. val (?g i) = 0 then 1 else 0)"
    by (simp only: all_from_one [OF n, of "\<lambda>i. val (?g i) = 0"])
  also have "\<dots> = (if \<forall>i<length ls. val (pl ! i) = val (ls ! i) then 1 else 0)"
    using z by simp
  also have "\<dots> = (if map val pl = map val ls then 1 else 0)"
    using len(1) by (simp add: list_eq_iff_nth_eq)
  finally show ?thesis .
qed

section \<open>The two paths of AssertIsEqual\<close>

lemma congruent_difference:
  assumes p: "0 < (p::nat)"
    and d: "int d mod int p = (int b - int a) mod int p"
  shows "d mod p = 0 \<longleftrightarrow> a mod p = b mod p"
proof -
  have "int (d mod p) = 0 \<longleftrightarrow> int d mod int p = 0"
    by (simp only: zmod_int)
  then have "d mod p = 0 \<longleftrightarrow> int d mod int p = 0"
    by simp
  also have "\<dots> \<longleftrightarrow> int p dvd int b - int a"
    by (simp only: d mod_eq_0_iff_dvd)
  also have "\<dots> \<longleftrightarrow> int b mod int p = int a mod int p"
    by (simp only: mod_eq_dvd_iff)
  also have "\<dots> \<longleftrightarrow> int (b mod p) = int (a mod p)"
    by (simp only: zmod_int)
  also have "\<dots> \<longleftrightarrow> a mod p = b mod p"
    by auto
  finally show ?thesis .
qed

lemma AssertIsEqual_constants:
  assumes ewa: "enforceWidthConditional f a = Emit () ca"
    and ewb: "enforceWidthConditional f b = Emit () cb"
    and p: "0 < Modulus f"
    and c: "constantValue f a = Some ba" "constantValue f b = Some bb"
  shows "AssertIsEqual f a b
      = (if ba mod Modulus f = bb mod Modulus f then Emit () (ca @ cb)
         else Panic (NotEqual (ba mod Modulus f) (bb mod Modulus f)))"
  using ewa ewb p c by (simp add: AssertIsEqual_def bind_build_def)

lemma AssertIsEqual_variables:
  assumes ewa: "enforceWidthConditional f a = Emit () ca"
    and ewb: "enforceWidthConditional f b = Emit () cb"
    and nc: "constantValue f a = None \<or> constantValue f b = None"
    and sub: "Sub f b a = Emit diff cd"
  shows "AssertIsEqual f a b
      = Emit () (ca @ cb @ cd @ [element_value f diff mod Modulus f = 0])"
proof -
  have "(case (constantValue f a, constantValue f b) of
           (Some ba, Some bb) \<Rightarrow> both ba bb
         | _ \<Rightarrow> other) = other"
    for both :: "nat \<Rightarrow> nat \<Rightarrow> unit build" and other
    using nc by (auto split: option.splits)
  then show ?thesis
    using ewa ewb sub by (simp add: AssertIsEqual_def bind_build_def checkZero_def)
qed

section \<open>Arithmetic of the quadratic extension at zero\<close>

lemma Ext2_IsZero_val:
  "val (Ext2_IsZero p x) = (if A0 x mod p = 0 \<and> A1 x mod p = 0 then 1 else 0)"
  by (simp add: Ext2_IsZero_def api_And_def curveF_IsZero_def)

lemma Ext2_Mul_zero_left:
  assumes "A0 x mod p = 0" "A1 x mod p = 0"
  shows "Ext2_Mul p x y = Ext2_Zero"
proof -
  have "p dvd A0 x" "p dvd A1 x" using assms by (simp_all add: mod_eq_0_iff_dvd)
  then have "p dvd A0 x * A0 y - A1 x * A1 y" "p dvd A0 x * A1 y + A1 x * A0 y"
    by (simp_all add: dvd_diff dvd_add)
  then show ?thesis by (simp add: Ext2_Mul_def Ext2_Zero_def)
qed

lemma Ext2_Add_zero [simp]: "Ext2_Add p Ext2_Zero Ext2_Zero = Ext2_Zero"
  by (simp add: Ext2_Add_def Ext2_Zero_def)

lemma Ext2_Zero_components [simp]: "A0 Ext2_Zero = 0" "A1 Ext2_Zero = 0"
  by (simp_all add: Ext2_Zero_def)

lemma BN254_base_modulus_value:
  "BN254_base_modulus
     = 21888242871839275222246405745257275088696311157297823662689037894645226208583"
  by (simp add: BN254_base_modulus_def x0_def)

section \<open>The selectors of the final exponentiation\<close>

lemma bind_gadget_fst_snd:
  "bind_gadget m k = (fst (k (fst m)), snd m @ snd (k (fst m)))"
  by (simp add: bind_gadget_def split: prod.splits)

lemma api_not_selector:
  assumes r: "1 < r" and s: "val s = 0 \<or> val s = 1"
  shows "val (api_Sub r (Const 1) s) = 1 - val s"
proof -
  have m: "Suc r mod r = Suc 0" "Suc 0 mod r = Suc 0" "Suc (r - Suc 0) = r"
    using r by (simp_all add: mod_Suc)
  show ?thesis using s m by (auto simp: api_Sub_def)
qed

lemma selector_product:
  assumes r: "1 < r" and s1: "val s1 = 0 \<or> val s1 = 1" and s2: "val s2 = 0 \<or> val s2 = 1"
  shows "val (api_Mul r (api_Sub r (Const 1) s1) (api_Sub r (Const 1) s2))
      = (if val s1 = 0 \<and> val s2 = 0 then 1 else 0)"
proof -
  have "val (api_Mul r (api_Sub r (Const 1) s1) (api_Sub r (Const 1) s2))
      = ((1 - val s1) * (1 - val s2)) mod r"
    by (simp only: api_Mul_def val.simps api_not_selector [OF r s1] api_not_selector [OF r s2])
  then show ?thesis using s1 s2 r by auto
qed

lemma api_And_boolean: "val (api_And a b) = 0 \<or> val (api_And a b) = 1"
  by (simp add: api_And_def)

lemma Ext6_IsZero_boolean: "val (Ext6_IsZero p x) = 0 \<or> val (Ext6_IsZero p x) = 1"
  unfolding Ext6_IsZero_def by (rule api_And_boolean)

lemma Ext12_Select_values:
  "val s = 1 \<Longrightarrow> Ext12_Select s x y = x" "val s = 0 \<Longrightarrow> Ext12_Select s x y = y"
  by (simp_all add: Ext12_Select_def Ext6_Select_def Ext2_Select_def curveF_Select_def)

lemma Ext6_Select_zero: "val s = 0 \<Longrightarrow> Ext6_Select s x y = y"
  by (simp add: Ext6_Select_def Ext2_Select_def curveF_Select_def)

lemma finalExponentiation_unsafe:
  "finalExponentiation pr e True =
     (let T = finalExponentiation_torus pr e;
          M = MulTorus pr (snd (fst T)) (fst (fst T));
          D = DecompressTorus pr (fst M)
      in (\<lparr>returned = fst D, input_after = e, assigned = []\<rparr>, snd T @ snd M @ snd D))"
  by (simp add: finalExponentiation_def Let_def bind_gadget_fst_snd split: prod.splits)

lemma finalExponentiation_safe:
  "finalExponentiation pr e False =
     (let p = curveF_modulus pr; r = api_modulus pr;
          selector1 = Ext6_IsZero p (C1 e);
          e1 = e\<lparr>C1 := (C1 e)\<lparr>B0 := (B0 (C1 e))
                  \<lparr>A0 := curveF_Select selector1 curveF_One (A0 (B0 (C1 e)))\<rparr>\<rparr>\<rparr>;
          T = finalExponentiation_torus pr e1;
          selector2 = Ext6_IsZero p (Ext6_Add p (fst (fst T)) (snd (fst T)));
          M = MulTorus pr (snd (fst T)) (Ext6_Select selector2 Ext6_One (fst (fst T)));
          D = DecompressTorus pr (fst M)
      in (\<lparr>returned = Ext12_Select
                (api_Mul r (api_Sub r (Const 1) selector1) (api_Sub r (Const 1) selector2))
                (fst D) Ext12_One,
           input_after = e1, assigned = [''C1.B0.A0'']\<rparr>, snd T @ snd M @ snd D))"
  by (simp add: finalExponentiation_def Let_def bind_gadget_fst_snd split: prod.splits)

lemma with_dummy_select:
  "val s = 1 \<Longrightarrow>
     e\<lparr>C1 := (C1 e)\<lparr>B0 := (B0 (C1 e))\<lparr>A0 := curveF_Select s curveF_One (A0 (B0 (C1 e)))\<rparr>\<rparr>\<rparr>
       = with_dummy e"
  "val s = 0 \<Longrightarrow>
     e\<lparr>C1 := (C1 e)\<lparr>B0 := (B0 (C1 e))\<lparr>A0 := curveF_Select s curveF_One (A0 (B0 (C1 e)))\<rparr>\<rparr>\<rparr>
       = e"
  by (simp_all add: with_dummy_def curveF_Select_def)

section \<open>The Miller loop returns no error after its check\<close>

lemma returns_no_error_bind:
  "(\<And>x. returns_no_error (k x)) \<Longrightarrow> returns_no_error (State_Monad.bind m k)"
  by (auto simp: returns_no_error_def split: prod.splits)

lemma returns_no_error_return: "returns_no_error (State_Monad.return (Inr r))"
  by (simp add: returns_no_error_def)

lemma millerLoopLines_valid:
  assumes "length Ps \<noteq> 0" "length Ps = length lines"
  shows "returns_no_error (millerLoopLines ops Ps lines)"
  using assms unfolding millerLoopLines_def
  by (simp add: Let_def split_def del: foldM.simps)
    (intro returns_no_error_bind returns_no_error_return)

lemma prepare_lines_length:
  "run_state (prepare_lines ops Qs) s = ((Qs', lines), s') \<Longrightarrow>
     length lines = length Qs \<and> length Qs' = length Qs"
proof (induction Qs arbitrary: s Qs' lines s')
  case Nil
  then show ?case by simp
next
  case (Cons Qi Qs)
  then show ?case
    by (auto split: prod.splits option.splits)
qed

section \<open>Round trip through the canonical bits\<close>

text \<open>
  Claim C1. In a valid limb-width configuration (limbs of at least one bit that fit the
  native field, a modulus above 1 that fits \<open>NbLimbs\<close> limbs), for every \<open>x\<close> below the
  modulus and whatever capacity the runtime gives the slices, \<open>ToBitsCanonical\<close> of the
  element bound to \<open>x\<close> returns exactly \<open>BitLen(modulus)\<close> entries, or one fewer when
  the modulus is an exact power of two; none of them is \<open>nil\<close>, every one is a bit, and
  they are the binary digits of \<open>x\<close>, least significant first; the assertions emitted
  hold; and \<open>FromBits\<close> of these bits is an element of value \<open>x\<close>.
  \<open>ReduceStrict\<close> and \<open>enforceWidthConditional\<close> enter through their contracts.
\<close>

theorem fromBits_toBitsCanonical_roundtrip:
  assumes b: "0 < BitsPerLimb f" and p: "1 < Modulus f"
    and fits: "Modulus f < 2 ^ (NbLimbs f * BitsPerLimb f)"
    and r: "2 ^ BitsPerLimb f \<le> nativeModulus f"
    and x: "x < Modulus f"
    and rs: "ReduceStrict f (bind_witness f x) = Emit ca cr" "all_hold cr"
      "ReduceStrict_contract f (bind_witness f x) ca"
    and ewc: "enforceWidthConditional f ca = Emit () cw" "all_hold cw"
  shows "\<exists>bits cs e. ToBitsCanonical grow f (bind_witness f x) = Emit (map Some bits) cs
      \<and> all_hold cs
      \<and> length bits = (if Modulus f = 2 ^ (BitLen (Modulus f) - 1)
                        then BitLen (Modulus f) - 1 else BitLen (Modulus f))
      \<and> list_all boolean bits \<and> bits_value bits = x
      \<and> FromBits f bits = Emit e [] \<and> element_value f e = x"
proof -
  let ?b = "BitsPerLimb f" and ?N = "NbLimbs f" and ?p = "Modulus f"
  let ?a = "bind_witness f x"
  define pw where "pw = (?p = 2 ^ (BitLen ?p - 1))"
  define nb where "nb = (if pw then BitLen ?p - 1 else BitLen ?p)"
  have xfit: "x < 2 ^ (?b * ?N)" using x fits by (simp add: mult.commute)
  have "element_value f ?a = x" using xfit by (simp add: element_value_bind_witness)
  then have ca: "overflow ca = 0" "length (Limbs ca) = ?N" "limbs_in_width f ca"
    "element_value f ca = x"
    using rs(3) x by (simp_all add: ReduceStrict_contract_def)
  have limbs: "list_all (\<lambda>l. val l < 2 ^ ?b) (Limbs ca)"
    using ca(1,3) by (simp add: limbs_in_width_def)
  obtain bits cs where tb: "ToBits f ca = Emit bits (cw @ cs)" and bool: "list_all boolean bits"
    and alt: "if list_all is_Const (Limbs ca)
       then length bits = ?b * ?N \<and> cs = []
            \<and> bits_value bits = element_value f ca mod 2 ^ (?b * ?N)
       else length bits = length (Limbs ca) * ?b + overflow ca
            \<and> length cs = length (Limbs ca)
            \<and> (list_all (\<lambda>l. val l < 2 ^ (?b + overflow ca)) (Limbs ca)
                 \<and> 2 ^ (?b + overflow ca) + 2 ^ overflow ca \<le> nativeModulus f + 1
                 \<and> all_hold cs
                \<longrightarrow> bits_value bits = element_value f ca)
            \<and> (overflow ca = 0 \<and> list_all (\<lambda>l. val l < 2 ^ ?b) (Limbs ca)
                 \<and> 2 ^ ?b \<le> nativeModulus f \<longrightarrow> all_hold cs)"
    using ToBits_properties [OF ewc(1)] by blast
  have len: "length bits = ?N * ?b" and sat: "all_hold cs" and bv: "bits_value bits = x"
    using alt ca limbs r xfit by (auto simp: mult.commute split: if_splits)
  have bl2: "2 \<le> BitLen ?p" using p by (rule BitLen_ge2)
  have pow: "TrailingZeroBits ?p = BitLen ?p - 1 \<longleftrightarrow> pw"
    using TrailingZeroBits_power_of_two [of ?p] p unfolding pw_def by simp
  have "BitLen ?p \<le> ?N * ?b" using fits by (rule BitLen_le)
  moreover have "nb \<le> BitLen ?p" by (simp add: nb_def)
  ultimately have nb_le: "nb \<le> length bits" using len by linarith
  have nb_pos: "0 < nb" using bl2 by (simp add: nb_def)
  have xnb: "x < 2 ^ nb"
  proof (cases pw)
    case True
    then have "?p = 2 ^ (BitLen ?p - 1)" unfolding pw_def .
    then have "x < 2 ^ (BitLen ?p - 1)" using x by metis
    then show ?thesis using True by (simp add: nb_def)
  next
    case False
    then show ?thesis using x BitLen_upper [of ?p] by (simp add: nb_def)
  qed
  have nbBits: "(if BitLen ?p \<noteq> 0 \<and> TrailingZeroBits ?p = BitLen ?p - 1
          then BitLen ?p - 1 else BitLen ?p) = nb"
    using bl2 pow by (simp add: nb_def)
  have tbc: "ToBitsCanonical grow f ?a = Emit (map Some (take nb bits)) (cr @ cw @ cs)"
    using rs(1) tb nb_le
    by (simp only: ToBitsCanonical_def Let_def nbBits) (simp add: bind_build_def)
  have bool': "list_all boolean (take nb bits)"
    using bool by (auto simp: list_all_iff dest: in_set_takeD)
  have ne: "take nb bits \<noteq> []" using nb_pos nb_le by (cases bits) auto
  have bv': "bits_value (take nb bits) = x"
    using bits_value_take [OF bool, of nb] bv xnb by simp
  moreover obtain e where "FromBits f (take nb bits) = Emit e []"
    "element_value f e = bits_value (take nb bits)"
    using FromBits_value [OF b r ne bool'] by blast
  moreover have "length (take nb bits) = nb" using nb_le by simp
  ultimately have "ToBitsCanonical grow f ?a = Emit (map Some (take nb bits)) (cr @ cw @ cs)
      \<and> all_hold (cr @ cw @ cs) \<and> length (take nb bits) = nb
      \<and> list_all boolean (take nb bits) \<and> bits_value (take nb bits) = x
      \<and> FromBits f (take nb bits) = Emit e [] \<and> element_value f e = x"
    using tbc rs(2) ewc(2) sat bool' by simp
  then show ?thesis unfolding nb_def pw_def by blast
qed

text \<open>
  The value 11 in the field of modulus 13: the four canonical bits are 1, 1, 0, 1, and
  \<open>FromBits\<close> makes of them an element of value 11.
\<close>

lemma BitLen_13: "BitLen 13 = 4"
  by code_simp

theorem fromBits_toBitsCanonical_roundtrip_witness:
  "ToBitsCanonical (\<lambda>n b ov. n * b + ov) F13 (bind_witness F13 11)
     = Emit [Some (Wire 1), Some (Wire 1), Some (Wire 0), Some (Wire 1)] [True, True]
   \<and> list_all boolean [Wire 1, Wire 1, Wire 0, Wire 1]
   \<and> bits_value [Wire 1, Wire 1, Wire 0, Wire 1] = 11
   \<and> (\<exists>e. FromBits F13 [Wire 1, Wire 1, Wire 0, Wire 1] = Emit e []
          \<and> element_value F13 e = 11)"
proof -
  let ?g = "\<lambda>n b ov. n * b + ov :: nat"
  let ?bits = "[Wire 1, Wire 1, Wire 0, Wire 1]"
  have h: "0 < BitsPerLimb F13" "1 < Modulus F13"
    "Modulus F13 < 2 ^ (NbLimbs F13 * BitsPerLimb F13)"
    "2 ^ BitsPerLimb F13 \<le> nativeModulus F13" "11 < Modulus F13"
    by (simp_all add: F13_def)
  have rs: "ReduceStrict F13 (bind_witness F13 11) = Emit (canonical 2 2 11) []"
    by (simp add: F13_def bind_witness_def numeral_2_eq_2)
  have c: "ReduceStrict_contract F13 (bind_witness F13 11) (canonical 2 2 11)"
    by (simp add: ReduceStrict_contract_def limbs_in_width_def element_value_def F13_def
        bind_witness_def canonical_def numeral_2_eq_2)
  have e: "enforceWidthConditional F13 (canonical 2 2 11) = Emit () []"
    by (simp add: F13_def)
  have m: "Modulus F13 = 13" by (simp add: F13_def)
  have ev: "ToBitsCanonical ?g F13 (bind_witness F13 11) = Emit (map Some ?bits) [True, True]"
    by code_simp
  obtain bits cs el where t: "ToBitsCanonical ?g F13 (bind_witness F13 11) = Emit (map Some bits) cs"
    "list_all boolean bits" "bits_value bits = 11"
    "FromBits F13 bits = Emit el []" "element_value F13 el = 11"
    using fromBits_toBitsCanonical_roundtrip [OF h rs _ c e, of ?g] by auto
  have "map Some bits = map Some ?bits" using t(1) ev by simp
  then have "bits = ?bits" by (rule map_injective) simp
  then show ?thesis using ev t by auto
qed

text \<open>
  The other outcomes of the slice, where the strict reduction is replaced by one that
  returns its argument: a one-limb element gives two bits; with a capacity of four the
  method returns them with two \<open>nil\<close> entries, with a capacity of two it panics, and the
  slice of a constant, made with its length for capacity, panics as well.
\<close>

lemma ToBitsCanonical_slice_capacity:
  "ToBitsCanonical (\<lambda>n b ov. 4) (F13\<lparr>ReduceStrict := (\<lambda>a. Emit a [])\<rparr>)
     (newInternalElement [Wire 3] 0)
     = Emit [Some (Wire 1), Some (Wire 1), None, None] [True]"
  "ToBitsCanonical (\<lambda>n b ov. 2) (F13\<lparr>ReduceStrict := (\<lambda>a. Emit a [])\<rparr>)
     (newInternalElement [Wire 3] 0)
     = Panic (Message ''slice bounds out of range'')"
  "ToBitsCanonical (\<lambda>n b ov. 8) (F13\<lparr>NbLimbs := 1, ReduceStrict := (\<lambda>a. Emit a [])\<rparr>)
     (newInternalElement [Const 3] 0)
     = Panic (Message ''slice bounds out of range'')"
  by code_simp+

section \<open>The number of bits of ToBits\<close>




section \<open>AssertIsLessOrEqual decides the order of the values\<close>

text \<open>
  Claim C4. \<open>AssertIsLessOrEqual(e, a)\<close> aborts the build when either overflow is not
  zero. For two elements of overflow zero whose limbs keep the declared width, the
  assertions it emits all hold exactly when the value of \<open>e\<close> is at most the value of
  \<open>a\<close>; the operands may have different numbers of bits, the shorter is padded with
  zeros at the most significant end. The width enforcement inside \<open>ToBits\<close> enters
  through its outcome; the native field has more than one element and holds a limb.
\<close>

theorem AssertIsLessOrEqual_correct:
  assumes r: "1 < nativeModulus f" "2 ^ BitsPerLimb f \<le> nativeModulus f"
    and w: "limbs_in_width f e" "limbs_in_width f a"
    and ewe: "enforceWidthConditional f e = Emit () ce" "all_hold ce"
    and ewa: "enforceWidthConditional f a = Emit () ca" "all_hold ca"
  shows "(0 < overflow e + overflow a \<longrightarrow>
           AssertIsLessOrEqual f e a = Panic (Message ''inputs must have 0 overflow''))
       \<and> (overflow e + overflow a = 0 \<longrightarrow>
           (\<exists>cs. AssertIsLessOrEqual f e a = Emit () cs
              \<and> (all_hold cs \<longleftrightarrow> element_value f e \<le> element_value f a)))"
proof (intro conjI impI)
  assume "0 < overflow e + overflow a"
  then show "AssertIsLessOrEqual f e a = Panic (Message ''inputs must have 0 overflow'')"
    by (simp add: AssertIsLessOrEqual_def)
next
  assume ov: "overflow e + overflow a = 0"
  obtain eBits cse where e: "ToBits f e = Emit eBits (ce @ cse)" "all_hold cse"
    "list_all boolean eBits" "bits_value eBits = element_value f e"
    using ToBits_zero_overflow [OF ewe(1) _ w(1) r(2)] ov by auto
  obtain aBits csa where a: "ToBits f a = Emit aBits (ca @ csa)" "all_hold csa"
    "list_all boolean aBits" "bits_value aBits = element_value f a"
    using ToBits_zero_overflow [OF ewa(1) _ w(2) r(2)] ov by auto
  define aBits' where "aBits' = (if length eBits > length aBits then ff eBits aBits else aBits)"
  define eBits' where "eBits' = (if length eBits > length aBits then eBits else ff aBits eBits)"
  have e': "list_all boolean eBits'" "bits_value eBits' = element_value f e"
    using e(3,4) ff_properties [OF e(3), of aBits] by (simp_all add: eBits'_def)
  have a': "list_all boolean aBits'" "bits_value aBits' = element_value f a"
    using a(3,4) ff_properties [OF a(3), of eBits] by (simp_all add: aBits'_def)
  have len: "length eBits' = length aBits'"
    using ff_properties(3) [OF e(3), of aBits] ff_properties(3) [OF a(3), of eBits]
    by (simp add: eBits'_def aBits'_def)
  let ?ps = "rev (zip eBits' aBits')"
  have pairs: "list_all (\<lambda>(e, a). boolean e \<and> boolean a) ?ps"
    using e'(1) a'(1) by (auto simp: list_all_iff dest: set_zip_leftD set_zip_rightD)
  have "all_hold (le_loop (nativeModulus f) (Const 1) ?ps)
      \<longleftrightarrow> (val (Const 1) = 0
           \<or> bits_value (rev (map fst ?ps)) \<le> bits_value (rev (map snd ?ps)))"
    by (rule le_loop_correct [OF r(1) pairs]) (simp add: boolean_def)
  then have loop: "all_hold (le_loop (nativeModulus f) (Const 1) ?ps)
      \<longleftrightarrow> element_value f e \<le> element_value f a"
    using len e'(2) a'(2) by (simp add: rev_map [symmetric])
  have "AssertIsLessOrEqual f e a
      = Emit () ((ce @ cse) @ (ca @ csa) @ le_loop (nativeModulus f) (Const 1) ?ps)"
    using ov e(1) a(1)
    by (simp add: AssertIsLessOrEqual_def bind_build_def Let_def eBits'_def aBits'_def)
  then show "\<exists>cs. AssertIsLessOrEqual f e a = Emit () cs
      \<and> (all_hold cs \<longleftrightarrow> element_value f e \<le> element_value f a)"
    using loop ewe(2) ewa(2) e(2) a(2) by simp
qed

text \<open>
  \<open>3 \<le> 9\<close> with one limb against two, \<open>10 > 9\<close> against a constant, and an operand
  of overflow one.
\<close>

theorem AssertIsLessOrEqual_correct_witness:
  "satisfied (AssertIsLessOrEqual F13 (newInternalElement [Wire 3] 0)
                (newInternalElement [Wire 1, Wire 2] 0))
   \<and> \<not> satisfied (AssertIsLessOrEqual F13 (newInternalElement [Wire 2, Wire 2] 0)
                (newInternalElement [Const 1, Const 2] 0))
   \<and> AssertIsLessOrEqual F13 (newInternalElement [Wire 3] 1) (newInternalElement [Wire 3] 0)
       = Panic (Message ''inputs must have 0 overflow'')"
proof -
  let ?e = "newInternalElement [Wire 3] 0" and ?a = "newInternalElement [Wire 1, Wire 2] 0"
  let ?e2 = "newInternalElement [Wire 2, Wire 2] 0"
  let ?a2 = "newInternalElement [Const 1, Const 2] 0"
  let ?e3 = "newInternalElement [Wire 3] 1"
  have r: "1 < nativeModulus F13" "2 ^ BitsPerLimb F13 \<le> nativeModulus F13"
    by (simp_all add: F13_def)
  have w: "limbs_in_width F13 ?e" "limbs_in_width F13 ?a" "limbs_in_width F13 ?e2"
    "limbs_in_width F13 ?a2" "limbs_in_width F13 ?e3"
    by (simp_all add: limbs_in_width_def newInternalElement_def F13_def)
  have ew: "enforceWidthConditional F13 ?e = Emit () []"
    "enforceWidthConditional F13 ?a = Emit () []" "enforceWidthConditional F13 ?e2 = Emit () []"
    "enforceWidthConditional F13 ?a2 = Emit () []" "enforceWidthConditional F13 ?e3 = Emit () []"
    by (simp_all add: F13_def)
  have t: "all_hold []" by simp
  have v: "element_value F13 ?e = 3" "element_value F13 ?a = 9" "element_value F13 ?e2 = 10"
    "element_value F13 ?a2 = 9"
    by (simp_all add: element_value_def newInternalElement_def F13_def)
  have ov: "overflow ?e + overflow ?a = 0" "overflow ?e2 + overflow ?a2 = 0"
    "0 < overflow ?e3 + overflow ?e"
    by (simp_all add: newInternalElement_def)
  have "\<exists>cs. AssertIsLessOrEqual F13 ?e ?a = Emit () cs \<and> (all_hold cs \<longleftrightarrow> (3::nat) \<le> 9)"
    using AssertIsLessOrEqual_correct [OF r w(1) w(2) ew(1) t ew(2) t] ov(1)
    by (simp only: v)
  then have 1: "satisfied (AssertIsLessOrEqual F13 ?e ?a)" by auto
  have "\<exists>cs. AssertIsLessOrEqual F13 ?e2 ?a2 = Emit () cs \<and> (all_hold cs \<longleftrightarrow> (10::nat) \<le> 9)"
    using AssertIsLessOrEqual_correct [OF r w(3) w(4) ew(3) t ew(4) t] ov(2)
    by (simp only: v)
  then have 2: "\<not> satisfied (AssertIsLessOrEqual F13 ?e2 ?a2)" by auto
  have 3: "AssertIsLessOrEqual F13 ?e3 ?e = Panic (Message ''inputs must have 0 overflow'')"
    using AssertIsLessOrEqual_correct [OF r w(5) w(1) ew(5) t ew(1) t] ov(3) by blast
  show ?thesis using 1 2 3 by blast
qed

section \<open>IsZero decides congruence to zero\<close>

text \<open>
  Claim C3. \<open>IsZero(a)\<close> returns the constant 1 at once for the element on zero limbs,
  whose value is 0. For any other element, with \<open>Reduce\<close> keeping the spec's contract
  (limbs of the declared width, value \<open>x\<close> or \<open>x + modulus\<close> for the canonical value \<open>x\<close>),
  it returns 1 when the value of \<open>a\<close> is congruent to 0 modulo the modulus and 0
  otherwise; it returns 1 exactly when the loosely reduced element has all limbs zero or
  equals the modulus. The configuration: at least one limb, a positive modulus that fits
  the limbs, a native modulus above 1 that holds \<open>BitsPerLimb + maxOverflow\<close> bits.
\<close>

theorem IsZero_correct:
  assumes cfg: "0 < NbLimbs f" "0 < Modulus f" "Modulus f < 2 ^ (BitsPerLimb f * NbLimbs f)"
    and r: "1 < nativeModulus f" "2 ^ BitsPerLimb f \<le> nativeModulus f"
      "2 ^ (BitsPerLimb f + maxOverflow f) \<le> nativeModulus f"
  shows "(isStrictZero a \<longrightarrow> IsZero f a = Emit (Const 1) [] \<and> element_value f a = 0)
       \<and> (\<not> isStrictZero a \<and> Reduce f a = Emit ca cr \<and> Reduce_contract f a ca \<longrightarrow>
           (\<exists>v. IsZero f a = Emit v cr
              \<and> val v = (if element_value f a mod Modulus f = 0 then 1 else 0)
              \<and> (val v = 1 \<longleftrightarrow> element_value f ca = 0 \<or> element_value f ca = Modulus f)))"
proof (rule conjI; rule impI)
  assume "isStrictZero a"
  then show "IsZero f a = Emit (Const 1) [] \<and> element_value f a = 0"
    by (simp add: IsZero_def isStrictZero_def element_value_def)
next
  assume h: "\<not> isStrictZero a \<and> Reduce f a = Emit ca cr \<and> Reduce_contract f a ca"
  let ?b = "BitsPerLimb f" and ?N = "NbLimbs f" and ?p = "Modulus f" and ?r = "nativeModulus f"
  let ?ls = "Limbs ca" and ?pl = "Limbs (Modulus_element f)"
  define x where "x = element_value f a mod ?p"
  have ca: "length ?ls = ?N" "limbs_in_width f ca" "overflow ca = 0"
    and cv: "element_value f ca = x \<or> element_value f ca = x + ?p"
    using h by (simp_all add: Reduce_contract_def x_def)
  have ne: "?ls \<noteq> []" using ca(1) cfg(1) by auto
  have bound: "list_all (\<lambda>l. val l < 2 ^ ?b) ?ls"
    using ca(2,3) by (simp add: limbs_in_width_def)
  have pl: "?pl = map Const (decompose ?b ?N ?p)" by (simp add: Modulus_element_def)
  have plen: "length ?pl = length ?ls" using ca(1) by (simp add: pl)
  have pbound: "list_all (\<lambda>l. val l < 2 ^ ?b) ?pl"
    using decompose_bounded [of ?b ?N ?p] by (simp add: pl list_all_iff)
  define res0 where "res0 =
     (if int (length ?ls) - 1 > int (maxOverflow f)
      then fold (\<lambda>i res. api_Mul ?r res (api_IsZero (?ls ! i))) [1..<length ?ls]
             (api_IsZero (?ls ! 0))
      else api_IsZero
             (fold (\<lambda>i limbSum. api_Add ?r limbSum (?ls ! i)) [1..<length ?ls] (?ls ! 0)))"
  define resP where "resP =
     fold (\<lambda>i res. api_Mul ?r res (api_IsZero (api_Sub ?r (?pl ! i) (?ls ! i))))
       [1..<length ?ls] (api_IsZero (api_Sub ?r (?pl ! 0) (?ls ! 0)))"
  have v0: "val res0 = (if list_all (\<lambda>l. val l = 0) ?ls then 1 else 0)"
    unfolding res0_def by (rule res0_value [OF r ne bound])
  have vP: "val resP = (if map val ?pl = map val ?ls then 1 else 0)"
    unfolding resP_def by (rule resP_value [OF r(1,2) plen ne bound pbound])
  have zero: "list_all (\<lambda>l. val l = 0) ?ls \<longleftrightarrow> element_value f ca = 0"
    by (simp add: element_value_def recompose_zero list_all_iff)
  have pval: "recompose ?b (map val ?pl) = ?p"
    using cfg(3) by (simp add: pl comp_def recompose_decompose)
  have isp: "map val ?pl = map val ?ls \<longleftrightarrow> element_value f ca = ?p"
  proof
    assume "map val ?pl = map val ?ls"
    then show "element_value f ca = ?p" using pval by (simp add: element_value_def)
  next
    assume "element_value f ca = ?p"
    then have "recompose ?b (map val ?pl) = recompose ?b (map val ?ls)"
      using pval by (simp add: element_value_def)
    moreover have "list_all (\<lambda>l. l < 2 ^ ?b) (map val ?pl)" "list_all (\<lambda>l. l < 2 ^ ?b) (map val ?ls)"
      using bound pbound by (simp_all add: list_all_iff)
    ultimately show "map val ?pl = map val ?ls"
      using plen by (intro recompose_unique [of ?b]) simp_all
  qed
  have "x < ?p" using cfg(2) by (simp add: x_def)
  then have "element_value f ca = 0 \<or> element_value f ca = ?p \<longleftrightarrow> x = 0"
    using cv cfg(2) by auto
  then have iff: "element_value f ca = 0 \<or> element_value f ca = ?p
      \<longleftrightarrow> element_value f a mod ?p = 0"
    by (simp add: x_def)
  have run: "IsZero f a = Emit (api_Or res0 resP) cr"
    using h ne plen by (simp add: IsZero_def bind_build_def Let_def res0_def resP_def)
  have "val (api_Or res0 resP)
      = (if element_value f ca = 0 \<or> element_value f ca = ?p then 1 else 0)"
    by (simp add: api_Or_def v0 vP zero isp)
  then show "\<exists>v. IsZero f a = Emit v cr
      \<and> val v = (if element_value f a mod Modulus f = 0 then 1 else 0)
      \<and> (val v = 1 \<longleftrightarrow> element_value f ca = 0 \<or> element_value f ca = Modulus f)"
    using run iff by auto
qed

text \<open>
  The element on zero limbs; 13 left as 13 by the reduction; 26 with one bit of
  overflow, on the limb-wise path (\<open>maxOverflow = 0\<close>); and 6, which is not zero.
\<close>

theorem IsZero_correct_witness:
  "IsZero F13 (newInternalElement [] 0) = Emit (Const 1) []
   \<and> (\<exists>v. IsZero (F13\<lparr>Reduce := \<lambda>a. Emit (canonical 2 2 13) []\<rparr>)
              (newInternalElement [Wire 1, Wire 3] 0) = Emit v [] \<and> val v = 1)
   \<and> (\<exists>v. IsZero (F13\<lparr>maxOverflow := 0\<rparr>) (newInternalElement [Wire 6, Wire 5] 1) = Emit v []
          \<and> val v = 1)
   \<and> (\<exists>v. IsZero F13 (newInternalElement [Wire 2, Wire 1] 0) = Emit v [] \<and> val v = 0)"
proof -
  let ?Fp = "F13\<lparr>Reduce := \<lambda>a. Emit (canonical 2 2 13) []\<rparr>"
  let ?Fm = "F13\<lparr>maxOverflow := 0\<rparr>"
  let ?z = "newInternalElement [] 0" and ?a1 = "newInternalElement [Wire 1, Wire 3] 0"
  let ?a2 = "newInternalElement [Wire 6, Wire 5] 1" and ?a3 = "newInternalElement [Wire 2, Wire 1] 0"
  have cfg: "0 < NbLimbs F13" "0 < Modulus F13" "Modulus F13 < 2 ^ (BitsPerLimb F13 * NbLimbs F13)"
    "1 < nativeModulus F13" "2 ^ BitsPerLimb F13 \<le> nativeModulus F13"
    "2 ^ (BitsPerLimb F13 + maxOverflow F13) \<le> nativeModulus F13"
    by (simp_all add: F13_def)
  have cfgp: "0 < NbLimbs ?Fp" "0 < Modulus ?Fp" "Modulus ?Fp < 2 ^ (BitsPerLimb ?Fp * NbLimbs ?Fp)"
    "1 < nativeModulus ?Fp" "2 ^ BitsPerLimb ?Fp \<le> nativeModulus ?Fp"
    "2 ^ (BitsPerLimb ?Fp + maxOverflow ?Fp) \<le> nativeModulus ?Fp"
    by (simp_all add: F13_def)
  have cfgm: "0 < NbLimbs ?Fm" "0 < Modulus ?Fm" "Modulus ?Fm < 2 ^ (BitsPerLimb ?Fm * NbLimbs ?Fm)"
    "1 < nativeModulus ?Fm" "2 ^ BitsPerLimb ?Fm \<le> nativeModulus ?Fm"
    "2 ^ (BitsPerLimb ?Fm + maxOverflow ?Fm) \<le> nativeModulus ?Fm"
    by (simp_all add: F13_def)
  have z: "isStrictZero ?z" by (simp add: isStrictZero_def newInternalElement_def)
  have 0: "IsZero F13 ?z = Emit (Const 1) []"
    using IsZero_correct [OF cfg, of ?z] z by blast
  have h1: "\<not> isStrictZero ?a1 \<and> Reduce ?Fp ?a1 = Emit (canonical 2 2 13) []
      \<and> Reduce_contract ?Fp ?a1 (canonical 2 2 13)"
    by code_simp
  have v1: "element_value ?Fp ?a1 mod Modulus ?Fp = 0" by code_simp
  obtain w1 where "IsZero ?Fp ?a1 = Emit w1 []"
      "val w1 = (if element_value ?Fp ?a1 mod Modulus ?Fp = 0 then 1 else 0)"
    using IsZero_correct [OF cfgp, of ?a1 "canonical 2 2 13" "[]", THEN conjunct2, rule_format, OF h1]
    by blast
  then have 1: "\<exists>v. IsZero ?Fp ?a1 = Emit v [] \<and> val v = 1"
    using v1 by simp
  have h2: "\<not> isStrictZero ?a2 \<and> Reduce ?Fm ?a2 = Emit (canonical 2 2 0) []
      \<and> Reduce_contract ?Fm ?a2 (canonical 2 2 0)"
    by code_simp
  have v2: "element_value ?Fm ?a2 mod Modulus ?Fm = 0" by code_simp
  obtain w2 where "IsZero ?Fm ?a2 = Emit w2 []"
      "val w2 = (if element_value ?Fm ?a2 mod Modulus ?Fm = 0 then 1 else 0)"
    using IsZero_correct [OF cfgm, of ?a2 "canonical 2 2 0" "[]", THEN conjunct2, rule_format, OF h2]
    by blast
  then have 2: "\<exists>v. IsZero ?Fm ?a2 = Emit v [] \<and> val v = 1"
    using v2 by simp
  have h3: "\<not> isStrictZero ?a3 \<and> Reduce F13 ?a3 = Emit (canonical 2 2 6) []
      \<and> Reduce_contract F13 ?a3 (canonical 2 2 6)"
    by code_simp
  have v3: "(element_value F13 ?a3 mod Modulus F13 = 0) = False" by code_simp
  obtain w3 where "IsZero F13 ?a3 = Emit w3 []"
      "val w3 = (if element_value F13 ?a3 mod Modulus F13 = 0 then 1 else 0)"
    using IsZero_correct [OF cfg, of ?a3 "canonical 2 2 6" "[]", THEN conjunct2, rule_format, OF h3]
    by blast
  then have 3: "\<exists>v. IsZero F13 ?a3 = Emit v [] \<and> val v = 0"
    using v3 by simp
  show ?thesis using 0 1 2 3 by blast
qed

section \<open>AssertIsEqual on constants and on variables\<close>

text \<open>
  Claim C8. When the width enforcement does not abort and the modulus is positive:
  for two constants \<open>AssertIsEqual(a, b)\<close> reduces both values modulo the modulus and
  compares them; it aborts the build exactly when the reduced values differ, and
  otherwise emits no assertion of its own (the list holds what the width enforcement
  emitted, nothing for constants). When an operand is not a constant it emits, after
  \<open>Sub(b, a)\<close>, one assertion, which holds exactly when \<open>a\<close> and \<open>b\<close> are congruent modulo
  the modulus; \<open>Sub\<close> enters through its contract (a value congruent to \<open>b - a\<close>).
\<close>

theorem AssertIsEqual_constants_and_variables:
  assumes ewa: "enforceWidthConditional f a = Emit () ca"
    and ewb: "enforceWidthConditional f b = Emit () cb"
    and p: "0 < Modulus f"
  shows "(constantValue f a = Some ba \<and> constantValue f b = Some bb \<longrightarrow>
            AssertIsEqual f a b
              = (if ba mod Modulus f = bb mod Modulus f then Emit () (ca @ cb)
                 else Panic (NotEqual (ba mod Modulus f) (bb mod Modulus f))))
       \<and> ((constantValue f a = None \<or> constantValue f b = None)
            \<and> Sub f b a = Emit diff cd
            \<and> int (element_value f diff) mod int (Modulus f)
                = (int (element_value f b) - int (element_value f a)) mod int (Modulus f) \<longrightarrow>
            (\<exists>c. AssertIsEqual f a b = Emit () (ca @ cb @ cd @ [c])
               \<and> (c \<longleftrightarrow> element_value f a mod Modulus f = element_value f b mod Modulus f)))"
proof (rule conjI; rule impI)
  assume c: "constantValue f a = Some ba \<and> constantValue f b = Some bb"
  show "AssertIsEqual f a b
      = (if ba mod Modulus f = bb mod Modulus f then Emit () (ca @ cb)
         else Panic (NotEqual (ba mod Modulus f) (bb mod Modulus f)))"
    by (rule AssertIsEqual_constants [OF ewa ewb p c [THEN conjunct1] c [THEN conjunct2]])
next
  assume h: "(constantValue f a = None \<or> constantValue f b = None)
      \<and> Sub f b a = Emit diff cd
      \<and> int (element_value f diff) mod int (Modulus f)
          = (int (element_value f b) - int (element_value f a)) mod int (Modulus f)"
  have nc: "constantValue f a = None \<or> constantValue f b = None"
    using h by (rule conjunct1)
  have sub: "Sub f b a = Emit diff cd"
    using h by (rule conjunct2 [THEN conjunct1])
  have d: "int (element_value f diff) mod int (Modulus f)
          = (int (element_value f b) - int (element_value f a)) mod int (Modulus f)"
    using h by (rule conjunct2 [THEN conjunct2])
  show "\<exists>c. AssertIsEqual f a b = Emit () (ca @ cb @ cd @ [c])
      \<and> (c \<longleftrightarrow> element_value f a mod Modulus f = element_value f b mod Modulus f)"
  proof (intro exI conjI)
    show "AssertIsEqual f a b
        = Emit () (ca @ cb @ cd @ [element_value f diff mod Modulus f = 0])"
      by (rule AssertIsEqual_variables [OF ewa ewb nc sub])
    show "element_value f diff mod Modulus f = 0
        \<longleftrightarrow> element_value f a mod Modulus f = element_value f b mod Modulus f"
      by (rule congruent_difference [OF p d])
  qed
qed

text \<open>
  Two equal constants, the constants 7 and 9, the variables 7 and 20 (congruent modulo
  13), and the variable 7 against the constant 9.
\<close>

theorem AssertIsEqual_constants_and_variables_witness:
  "AssertIsEqual F13 (newInternalElement [Const 3, Const 1] 0)
      (newInternalElement [Const 3, Const 1] 0) = Emit () []
   \<and> AssertIsEqual F13 (newInternalElement [Const 3, Const 1] 0)
      (newInternalElement [Const 1, Const 2] 0) = Panic (NotEqual 7 9)
   \<and> satisfied (AssertIsEqual F13 (newInternalElement [Wire 3, Wire 1] 0)
      (newInternalElement [Wire 0, Wire 5] 1))
   \<and> \<not> satisfied (AssertIsEqual F13 (newInternalElement [Wire 3, Wire 1] 0)
      (newInternalElement [Const 1, Const 2] 0))"
proof -
  let ?c7 = "newInternalElement [Const 3, Const 1] 0"
  let ?c9 = "newInternalElement [Const 1, Const 2] 0"
  let ?w7 = "newInternalElement [Wire 3, Wire 1] 0"
  let ?w20 = "newInternalElement [Wire 0, Wire 5] 1"
  have ew: "enforceWidthConditional F13 ?c7 = Emit () []"
    "enforceWidthConditional F13 ?c9 = Emit () []"
    "enforceWidthConditional F13 ?w7 = Emit () []"
    "enforceWidthConditional F13 ?w20 = Emit () []"
    by (simp_all add: F13_def)
  have p: "0 < Modulus F13" by (simp add: F13_def)
  have c: "constantValue F13 ?c7 = Some 7 \<and> constantValue F13 ?c7 = Some 7"
    "constantValue F13 ?c7 = Some 7 \<and> constantValue F13 ?c9 = Some 9"
    by code_simp+
  have m: "(7::nat) mod Modulus F13 = 7" "(9::nat) mod Modulus F13 = 9"
    by (simp_all add: F13_def)
  have 1: "AssertIsEqual F13 ?c7 ?c7 = Emit () []"
    using AssertIsEqual_constants_and_variables [OF ew(1) ew(1) p, THEN conjunct1, rule_format,
        OF c(1)]
    by simp
  have 2: "AssertIsEqual F13 ?c7 ?c9 = Panic (NotEqual 7 9)"
    using AssertIsEqual_constants_and_variables [OF ew(1) ew(2) p, THEN conjunct1, rule_format,
        OF c(2)]
    by (simp add: m)
  have h3: "(constantValue F13 ?w7 = None \<or> constantValue F13 ?w20 = None)
      \<and> Sub F13 ?w20 ?w7 = Emit (canonical 2 2 0) []
      \<and> int (element_value F13 (canonical 2 2 0)) mod int (Modulus F13)
          = (int (element_value F13 ?w20) - int (element_value F13 ?w7)) mod int (Modulus F13)"
    by code_simp
  have v3: "element_value F13 ?w7 mod Modulus F13 = element_value F13 ?w20 mod Modulus F13"
    by code_simp
  obtain c3 where "AssertIsEqual F13 ?w7 ?w20 = Emit () ([] @ [] @ [] @ [c3])"
    "c3 \<longleftrightarrow> element_value F13 ?w7 mod Modulus F13 = element_value F13 ?w20 mod Modulus F13"
    using AssertIsEqual_constants_and_variables [OF ew(3) ew(4) p, THEN conjunct2, rule_format,
        OF h3]
    by blast
  then have 3: "satisfied (AssertIsEqual F13 ?w7 ?w20)" using v3 by simp
  have h4: "(constantValue F13 ?w7 = None \<or> constantValue F13 ?c9 = None)
      \<and> Sub F13 ?c9 ?w7 = Emit (canonical 2 2 2) []
      \<and> int (element_value F13 (canonical 2 2 2)) mod int (Modulus F13)
          = (int (element_value F13 ?c9) - int (element_value F13 ?w7)) mod int (Modulus F13)"
    by code_simp
  have v4: "(element_value F13 ?w7 mod Modulus F13 = element_value F13 ?c9 mod Modulus F13) = False"
    by code_simp
  obtain c4 where "AssertIsEqual F13 ?w7 ?c9 = Emit () ([] @ [] @ [] @ [c4])"
    "c4 \<longleftrightarrow> element_value F13 ?w7 mod Modulus F13 = element_value F13 ?c9 mod Modulus F13"
    using AssertIsEqual_constants_and_variables [OF ew(3) ew(2) p, THEN conjunct2, rule_format,
        OF h4]
    by blast
  then have 4: "\<not> satisfied (AssertIsEqual F13 ?w7 ?c9)" using v4 by simp
  show ?thesis using 1 2 3 4 by blast
qed

section \<open>The twist equation\<close>

text \<open>
  Claim C9. The assertions of \<open>AssertIsOnTwist(Q)\<close> all hold exactly when \<open>Q\<close> satisfies
  the twisted Weierstrass equation \<open>Y\<^sup>2 = X\<^sup>3 + b'\<close> over \<open>E2\<close> with the curve constant
  replaced by zero for the point-at-infinity sentinel \<open>(0, 0)\<close>; with the zero constant
  the sentinel satisfies the equation, so the assertions hold exactly when \<open>Q\<close> is the
  sentinel or lies on the twist. The constant that \<open>NewPairing\<close> sets is \<open>3/(9+u)\<close>:
  multiplied by \<open>9 + u\<close> in the quadratic extension of the base field of BN254 it gives 3.
\<close>

theorem AssertIsOnTwist_correct:
  "\<exists>cs. AssertIsOnTwist pr Q = ((), cs)
     \<and> (all_hold cs \<longleftrightarrow>
          is_infinity (curveF_modulus pr) Q \<or> on_twist (curveF_modulus pr) (bTwist pr) Q)
     \<and> (all_hold cs \<longleftrightarrow>
          on_twist (curveF_modulus pr)
            (if is_infinity (curveF_modulus pr) Q then Ext2_Zero else bTwist pr) Q)
     \<and> Ext2_Mul BN254_base_modulus NewPairing_bTwist \<lparr>A0 = 9, A1 = 1\<rparr> = \<lparr>A0 = 3, A1 = 0\<rparr>"
proof -
  let ?p = "curveF_modulus pr"
  let ?b = "if is_infinity ?p Q then Ext2_Zero else bTwist pr"
  have sel: "val (api_And (Ext2_IsZero ?p (X (P Q))) (Ext2_IsZero ?p (Y (P Q)))) = 1
      \<longleftrightarrow> is_infinity ?p Q"
    by (auto simp: api_And_def Ext2_IsZero_val is_infinity_def)
  have b: "Ext2_Select (api_And (Ext2_IsZero ?p (X (P Q))) (Ext2_IsZero ?p (Y (P Q))))
      Ext2_Zero (bTwist pr) = ?b"
    using sel by (simp add: Ext2_Select_def curveF_Select_def Ext2_Zero_def)
  have run: "AssertIsOnTwist pr Q
      = ((), Ext2_AssertIsEqual ?p (Ext2_Mul ?p (Y (P Q)) (Y (P Q)))
          (Ext2_Add ?p (Ext2_Mul ?p (Ext2_Mul ?p (X (P Q)) (X (P Q))) (X (P Q))) ?b))"
    by (simp only: AssertIsOnTwist_def computeTwistEquation_def Let_def b Ext2_Square_def)
      simp
  have eq: "all_hold (Ext2_AssertIsEqual ?p l r) \<longleftrightarrow> Ext2_congruent ?p l r" for l r
    by (simp add: Ext2_AssertIsEqual_def Ext2_congruent_def)
  have inf: "on_twist ?p Ext2_Zero Q" if "is_infinity ?p Q"
  proof -
    have x: "A0 (X (P Q)) mod ?p = 0" "A1 (X (P Q)) mod ?p = 0"
      and y: "A0 (Y (P Q)) mod ?p = 0" "A1 (Y (P Q)) mod ?p = 0"
      using that by (simp_all add: is_infinity_def)
    have "Ext2_Mul ?p (Y (P Q)) (Y (P Q)) = Ext2_Zero"
      using y by (rule Ext2_Mul_zero_left)
    moreover have "Ext2_Mul ?p (X (P Q)) (X (P Q)) = Ext2_Zero"
      using x by (rule Ext2_Mul_zero_left)
    moreover have "Ext2_Mul ?p Ext2_Zero (X (P Q)) = Ext2_Zero"
      by (rule Ext2_Mul_zero_left) simp_all
    ultimately show ?thesis by (simp add: on_twist_def Ext2_congruent_def)
  qed
  have "all_hold (snd (AssertIsOnTwist pr Q)) \<longleftrightarrow> on_twist ?p ?b Q"
    by (simp only: run snd_conv eq on_twist_def)
  moreover have "on_twist ?p ?b Q \<longleftrightarrow> is_infinity ?p Q \<or> on_twist ?p (bTwist pr) Q"
    using inf by auto
  moreover have "Ext2_Mul BN254_base_modulus NewPairing_bTwist \<lparr>A0 = 9, A1 = 1\<rparr>
      = \<lparr>A0 = 3, A1 = 0\<rparr>"
    by (simp add: Ext2_Mul_def NewPairing_bTwist_def BN254_base_modulus_value)
  ultimately show ?thesis using run by simp
qed

text \<open>
  Over the base field of 7 elements with the constant 1: the sentinel (written with
  the representative 7 of zero), the point \<open>(0, 1)\<close> on the curve, and \<open>(0, 2)\<close> off it.
\<close>

theorem AssertIsOnTwist_correct_witness:
  "all_hold (snd (AssertIsOnTwist Pairing7
       \<lparr>P = \<lparr>X = \<lparr>A0 = 0, A1 = 0\<rparr>, Y = \<lparr>A0 = 7, A1 = 0\<rparr>\<rparr>, Lines = None\<rparr>))
   \<and> all_hold (snd (AssertIsOnTwist Pairing7
       \<lparr>P = \<lparr>X = \<lparr>A0 = 0, A1 = 0\<rparr>, Y = \<lparr>A0 = 1, A1 = 0\<rparr>\<rparr>, Lines = None\<rparr>))
   \<and> \<not> all_hold (snd (AssertIsOnTwist Pairing7
       \<lparr>P = \<lparr>X = \<lparr>A0 = 0, A1 = 0\<rparr>, Y = \<lparr>A0 = 2, A1 = 0\<rparr>\<rparr>, Lines = None\<rparr>))"
proof -
  let ?inf = "\<lparr>P = \<lparr>X = \<lparr>A0 = 0, A1 = 0\<rparr>, Y = \<lparr>A0 = 7, A1 = 0\<rparr>\<rparr>, Lines = None\<rparr>"
  let ?on = "\<lparr>P = \<lparr>X = \<lparr>A0 = 0, A1 = 0\<rparr>, Y = \<lparr>A0 = 1, A1 = 0\<rparr>\<rparr>, Lines = None\<rparr>"
  let ?off = "\<lparr>P = \<lparr>X = \<lparr>A0 = 0, A1 = 0\<rparr>, Y = \<lparr>A0 = 2, A1 = 0\<rparr>\<rparr>, Lines = None\<rparr>"
  have i: "is_infinity (curveF_modulus Pairing7) ?inf"
    "\<not> is_infinity (curveF_modulus Pairing7) ?on"
    "\<not> is_infinity (curveF_modulus Pairing7) ?off"
    by (simp_all add: is_infinity_def Pairing7_def)
  have t: "on_twist (curveF_modulus Pairing7) (bTwist Pairing7) ?on"
    "\<not> on_twist (curveF_modulus Pairing7) (bTwist Pairing7) ?off"
    by (simp_all add: on_twist_def Ext2_congruent_def Ext2_Mul_def Ext2_Add_def Pairing7_def)
  show ?thesis
    using AssertIsOnTwist_correct [of Pairing7 ?inf] AssertIsOnTwist_correct [of Pairing7 ?on]
      AssertIsOnTwist_correct [of Pairing7 ?off] i t
    by auto
qed

section \<open>The safe and the unsafe final exponentiation\<close>

text \<open>
  Evaluation of the torus chain on concrete input goes one call at a time: the
  continuation of \<open>bind_gadget\<close> is entered only once its argument is a value.
\<close>

lemma bind_gadget_weak_cong: "m = m' \<Longrightarrow> bind_gadget m k = bind_gadget m' k"
  by simp

lemma bind_gadget_pair: "bind_gadget (x, cs) k = (case k x of (y, cs') \<Rightarrow> (y, cs @ cs'))"
  by (simp add: bind_gadget_def)

lemma with_dummy_Ext12_One: "with_dummy Ext12_One = \<lparr>C0 = Ext6_One, C1 = Ext6_One\<rparr>"
  by (simp add: with_dummy_def Ext12_One_def Ext6_One_def Ext6_Zero_def Ext2_One_def
      Ext2_Zero_def curveF_One_def)

lemma torus_Pairing7_dummy:
  "finalExponentiation_torus Pairing7 \<lparr>C0 = Ext6_One, C1 = Ext6_One\<rparr> =
     ((\<lparr>B0 = \<lparr>A0 = 5, A1 = 0\<rparr>, B1 = \<lparr>A0 = 0, A1 = 0\<rparr>, B2 = \<lparr>A0 = 0, A1 = 0\<rparr>\<rparr>,
       \<lparr>B0 = \<lparr>A0 = 3, A1 = 0\<rparr>, B1 = \<lparr>A0 = 0, A1 = 0\<rparr>, B2 = \<lparr>A0 = 0, A1 = 0\<rparr>\<rparr>),
      [True, True, True, True, True, True, True, True, True, True, True])"
  unfolding finalExponentiation_torus_def
  by (simp add: bind_gadget_pair Pairing7_def Ext6_One_def Ext6_Zero_def Ext2_One_def
      Ext2_Zero_def Ext6_Add_def Ext6_Neg_def Ext2_Add_def Ext2_Neg_def Ext6_IsZero_def
      Ext2_IsZero_def curveF_IsZero_def api_And_def
      cong: bind_gadget_weak_cong let_weak_cong)

lemma torus_Pairing7_one:
  "finalExponentiation_torus Pairing7 Ext12_One =
     ((\<lparr>B0 = \<lparr>A0 = 6, A1 = 0\<rparr>, B1 = \<lparr>A0 = 0, A1 = 0\<rparr>, B2 = \<lparr>A0 = 0, A1 = 0\<rparr>\<rparr>,
       \<lparr>B0 = \<lparr>A0 = 5, A1 = 0\<rparr>, B1 = \<lparr>A0 = 0, A1 = 0\<rparr>, B2 = \<lparr>A0 = 0, A1 = 0\<rparr>\<rparr>),
      [False, True, True, True, True, True, True, True, True, True, True])"
  unfolding finalExponentiation_torus_def
  by (simp add: bind_gadget_pair Pairing7_def Ext12_One_def Ext6_One_def Ext6_Zero_def
      Ext2_One_def Ext2_Zero_def Ext6_Add_def Ext6_Neg_def Ext2_Add_def Ext2_Neg_def
      Ext6_IsZero_def Ext2_IsZero_def curveF_IsZero_def api_And_def
      cong: bind_gadget_weak_cong let_weak_cong)

text \<open>
  Over a native field of more than one element: on a Miller loop output that is not
  degenerate (\<open>e.C1\<close> is not zero and the torus product term is not degenerate)
  \<open>FinalExponentiation\<close> and \<open>FinalExponentiationUnsafe\<close> return equal elements and
  emit the same assertions. On a degenerate output, the value 1 among them,
  \<open>FinalExponentiation\<close> returns 1, and its assertions are those of the tower methods
  on the element with the dummy in place of the zero. Whether these hold is decided by
  the division and the torus methods, which are fields of the receiver: nothing is
  assumed of them here, and nothing is concluded about them.
\<close>

lemma FinalExponentiation_agrees_with_unsafe:
  assumes r: "1 < api_modulus pr"
  shows "(\<not> degenerate pr e \<and> \<not> product_degenerate pr e \<longrightarrow>
            returned (fst (FinalExponentiation pr e))
              = returned (fst (FinalExponentiationUnsafe pr e))
            \<and> snd (FinalExponentiation pr e) = snd (FinalExponentiationUnsafe pr e))
       \<and> (degenerate pr e \<longrightarrow>
            returned (fst (FinalExponentiation pr e)) = Ext12_One
            \<and> (let T = finalExponentiation_torus pr (with_dummy e);
                    t0 = fst (fst T); t2 = snd (fst T);
                    selector2 = Ext6_IsZero (curveF_modulus pr)
                                  (Ext6_Add (curveF_modulus pr) t0 t2);
                    M = MulTorus pr t2 (Ext6_Select selector2 Ext6_One t0);
                    D = DecompressTorus pr (fst M)
                in all_hold (snd (FinalExponentiation pr e))
                     \<longleftrightarrow> all_hold (snd T) \<and> all_hold (snd M) \<and> all_hold (snd D)))
       \<and> degenerate pr Ext12_One"
proof (intro conjI impI)
  let ?p = "curveF_modulus pr" and ?r = "api_modulus pr"
  let ?s1 = "Ext6_IsZero ?p (C1 e)"
  {
    assume nd: "\<not> degenerate pr e \<and> \<not> product_degenerate pr e"
    let ?T = "finalExponentiation_torus pr e"
    let ?s2 = "Ext6_IsZero ?p (Ext6_Add ?p (fst (fst ?T)) (snd (fst ?T)))"
    have s1: "val ?s1 = 0"
      using nd Ext6_IsZero_boolean [of ?p "C1 e"] by (auto simp: degenerate_def)
    have s2: "val ?s2 = 0"
      using nd Ext6_IsZero_boolean [of ?p "Ext6_Add ?p (fst (fst ?T)) (snd (fst ?T))"]
      by (auto simp: product_degenerate_def split: prod.splits)
    have sel: "val (api_Mul ?r (api_Sub ?r (Const 1) ?s1) (api_Sub ?r (Const 1) ?s2)) = 1"
      using selector_product [OF r Ext6_IsZero_boolean Ext6_IsZero_boolean, of ?p "C1 e" ?p
          "Ext6_Add ?p (fst (fst ?T)) (snd (fst ?T))"] s1 s2
      by simp
    have safe: "finalExponentiation pr e False =
       (let M = MulTorus pr (snd (fst ?T)) (fst (fst ?T)); D = DecompressTorus pr (fst M)
        in (\<lparr>returned = fst D, input_after = e, assigned = [''C1.B0.A0'']\<rparr>,
            snd ?T @ snd M @ snd D))"
      by (simp only: finalExponentiation_safe Let_def with_dummy_select(2) [OF s1]
          Ext6_Select_zero [OF s2] Ext12_Select_values(1) [OF sel])
    show "returned (fst (FinalExponentiation pr e))
        = returned (fst (FinalExponentiationUnsafe pr e))"
      by (simp add: FinalExponentiation_def FinalExponentiationUnsafe_def safe
          finalExponentiation_unsafe Let_def)
    show "snd (FinalExponentiation pr e) = snd (FinalExponentiationUnsafe pr e)"
      by (simp add: FinalExponentiation_def FinalExponentiationUnsafe_def safe
          finalExponentiation_unsafe Let_def)
  }
  {
    assume d: "degenerate pr e"
    then have s1: "val ?s1 = 1" by (simp add: degenerate_def)
    let ?T = "finalExponentiation_torus pr (with_dummy e)"
    let ?s2 = "Ext6_IsZero ?p (Ext6_Add ?p (fst (fst ?T)) (snd (fst ?T)))"
    have sel: "val (api_Mul ?r (api_Sub ?r (Const 1) ?s1) (api_Sub ?r (Const 1) ?s2)) = 0"
      using selector_product [OF r Ext6_IsZero_boolean Ext6_IsZero_boolean, of ?p "C1 e" ?p
          "Ext6_Add ?p (fst (fst ?T)) (snd (fst ?T))"] s1
      by simp
    have safe: "finalExponentiation pr e False =
       (let M = MulTorus pr (snd (fst ?T)) (Ext6_Select ?s2 Ext6_One (fst (fst ?T)));
            D = DecompressTorus pr (fst M)
        in (\<lparr>returned = Ext12_One, input_after = with_dummy e, assigned = [''C1.B0.A0'']\<rparr>,
            snd ?T @ snd M @ snd D))"
      by (simp only: finalExponentiation_safe Let_def with_dummy_select(1) [OF s1]
          Ext12_Select_values(2) [OF sel])
    show "returned (fst (FinalExponentiation pr e)) = Ext12_One"
      by (simp add: FinalExponentiation_def safe Let_def)
    show "let T = finalExponentiation_torus pr (with_dummy e);
              t0 = fst (fst T); t2 = snd (fst T);
              selector2 = Ext6_IsZero (curveF_modulus pr) (Ext6_Add (curveF_modulus pr) t0 t2);
              M = MulTorus pr t2 (Ext6_Select selector2 Ext6_One t0);
              D = DecompressTorus pr (fst M)
          in all_hold (snd (FinalExponentiation pr e))
               \<longleftrightarrow> all_hold (snd T) \<and> all_hold (snd M) \<and> all_hold (snd D)"
      by (simp add: FinalExponentiation_def safe Let_def)
  }
  show "degenerate pr Ext12_One"
    by (simp add: degenerate_def Ext12_One_def Ext6_Zero_def Ext2_Zero_def Ext6_IsZero_def
        Ext2_IsZero_def curveF_IsZero_def api_And_def)
qed

text \<open>
  With the toy receiver, whose division asserts a divisor that is not zero: the two
  variants agree on \<open>(1, 1)\<close>; on the value 1 the safe variant returns 1 and its
  assertions hold, while the unsafe variant divides by zero.
\<close>

lemma FinalExponentiation_Pairing7:
  "returned (fst (FinalExponentiation Pairing7 \<lparr>C0 = Ext6_One, C1 = Ext6_One\<rparr>))
     = returned (fst (FinalExponentiationUnsafe Pairing7 \<lparr>C0 = Ext6_One, C1 = Ext6_One\<rparr>))
   \<and> snd (FinalExponentiation Pairing7 \<lparr>C0 = Ext6_One, C1 = Ext6_One\<rparr>)
     = snd (FinalExponentiationUnsafe Pairing7 \<lparr>C0 = Ext6_One, C1 = Ext6_One\<rparr>)
   \<and> returned (fst (FinalExponentiation Pairing7 Ext12_One)) = Ext12_One
   \<and> all_hold (snd (FinalExponentiation Pairing7 Ext12_One))
   \<and> \<not> all_hold (snd (FinalExponentiationUnsafe Pairing7 Ext12_One))"
proof -
  let ?e = "\<lparr>C0 = Ext6_One, C1 = Ext6_One\<rparr>"
  have r: "1 < api_modulus Pairing7" by (simp add: Pairing7_def)
  have nd: "\<not> degenerate Pairing7 ?e \<and> \<not> product_degenerate Pairing7 ?e"
    unfolding degenerate_def product_degenerate_def torus_Pairing7_dummy
    by (simp add: Pairing7_def Ext6_One_def Ext6_Zero_def Ext2_One_def Ext2_Zero_def
        Ext6_Add_def Ext2_Add_def Ext6_IsZero_def Ext2_IsZero_def curveF_IsZero_def
        api_And_def)
  have d: "degenerate Pairing7 Ext12_One"
    by (simp add: degenerate_def Pairing7_def Ext12_One_def Ext6_Zero_def Ext2_Zero_def
        Ext6_IsZero_def Ext2_IsZero_def curveF_IsZero_def api_And_def)
  note t1 = FinalExponentiation_agrees_with_unsafe [OF r, of ?e, THEN conjunct1, rule_format, OF nd]
  note t2 = FinalExponentiation_agrees_with_unsafe [OF r, of Ext12_One, THEN conjunct2,
      THEN conjunct1, rule_format, OF d]
  have sat: "all_hold (snd (FinalExponentiation Pairing7 Ext12_One))"
    using t2 [THEN conjunct2]
    unfolding Let_def with_dummy_Ext12_One torus_Pairing7_dummy
    by (simp add: Pairing7_def Ext6_One_def Ext6_Zero_def Ext2_One_def Ext2_Zero_def
        Ext6_Add_def Ext2_Add_def Ext6_IsZero_def Ext2_IsZero_def curveF_IsZero_def
        api_And_def Ext6_Select_def Ext2_Select_def curveF_Select_def)
  have unsat: "\<not> all_hold (snd (FinalExponentiationUnsafe Pairing7 Ext12_One))"
    unfolding FinalExponentiationUnsafe_def finalExponentiation_unsafe Let_def
      torus_Pairing7_one
    by simp
  show ?thesis using t1 t2 [THEN conjunct1] sat unsat by blast
qed
section \<open>The safe final exponentiation writes to its input\<close>

text \<open>
  Claim C10. The safe variant (\<open>unsafe = false\<close>, which is \<open>FinalExponentiation\<close>) assigns
  one field of the element behind its argument: after the call \<open>e.C1.B0.A0\<close> holds the
  result of the select gated on the degeneracy selector \<open>IsZero(e.C1)\<close>, between the
  dummy 1 and the old content. The unsafe variant assigns nothing and leaves the element
  as it was. On the value 1 the element after the safe call differs from 1.
\<close>

theorem finalExponentiation_writes_input:
  "input_after (fst (finalExponentiation pr e False))
     = e\<lparr>C1 := (C1 e)\<lparr>B0 := (B0 (C1 e))
          \<lparr>A0 := curveF_Select (Ext6_IsZero (curveF_modulus pr) (C1 e)) curveF_One
                  (A0 (B0 (C1 e)))\<rparr>\<rparr>\<rparr>
   \<and> assigned (fst (finalExponentiation pr e False)) = [''C1.B0.A0'']
   \<and> FinalExponentiation pr e = finalExponentiation pr e False
   \<and> input_after (fst (finalExponentiation pr e True)) = e
   \<and> assigned (fst (finalExponentiation pr e True)) = []
   \<and> FinalExponentiationUnsafe pr e = finalExponentiation pr e True
   \<and> input_after (fst (finalExponentiation pr Ext12_One False)) = with_dummy Ext12_One
   \<and> with_dummy Ext12_One \<noteq> Ext12_One"
proof -
  have d: "val (Ext6_IsZero (curveF_modulus pr) (C1 Ext12_One)) = 1"
    by (simp add: Ext12_One_def Ext6_Zero_def Ext2_Zero_def Ext6_IsZero_def
        Ext2_IsZero_def curveF_IsZero_def api_And_def)
  have "A0 (B0 (C1 (with_dummy Ext12_One))) \<noteq> A0 (B0 (C1 Ext12_One))"
    by (simp add: with_dummy_def Ext12_One_def Ext6_Zero_def Ext2_Zero_def curveF_One_def)
  then have ne: "with_dummy Ext12_One \<noteq> Ext12_One" by auto
  show ?thesis
    using ne
    by (simp add: finalExponentiation_safe finalExponentiation_unsafe Let_def
        FinalExponentiation_def FinalExponentiationUnsafe_def with_dummy_select(1) [OF d])
qed

section \<open>Input validation of the Miller loop\<close>

text \<open>
  Claim C6. When \<open>P\<close> is empty or \<open>P\<close> and \<open>Q\<close> differ in length, \<open>MillerLoop\<close> returns
  the error \<open>invalid inputs sizes\<close> and leaves the circuit builder in the state it found
  (nothing was emitted) and \<open>Q\<close> as it was; otherwise the error it returns is nil.
  \<open>millerLoopLines\<close> does the same for \<open>P\<close> and its argument \<open>lines\<close>. Both hold for
  every builder state and whatever the tower methods do.
\<close>

theorem MillerLoop_input_validation:
  "(length Ps = 0 \<or> length Ps \<noteq> length Qs \<longrightarrow>
      run_state (MillerLoop ops Ps Qs) s = ((Inl ''invalid inputs sizes'', Qs), s))
   \<and> (length Ps \<noteq> 0 \<and> length Ps = length Qs \<longrightarrow>
      (\<exists>res Qs' s'. run_state (MillerLoop ops Ps Qs) s = ((Inr res, Qs'), s')))
   \<and> (length Ps = 0 \<or> length Ps \<noteq> length lines \<longrightarrow>
      run_state (millerLoopLines ops Ps lines) s = (Inl ''invalid inputs sizes'', s))
   \<and> (length Ps \<noteq> 0 \<and> length Ps = length lines \<longrightarrow>
      (\<exists>res s'. run_state (millerLoopLines ops Ps lines) s = (Inr res, s')))"
proof (intro conjI impI)
  assume "length Ps = 0 \<or> length Ps \<noteq> length Qs"
  then show "run_state (MillerLoop ops Ps Qs) s = ((Inl ''invalid inputs sizes'', Qs), s)"
    by (auto simp: MillerLoop_def)
next
  assume v: "length Ps \<noteq> 0 \<and> length Ps = length Qs"
  obtain Qs' ls s1 where pl: "run_state (prepare_lines ops Qs) s = ((Qs', ls), s1)"
    by (cases "run_state (prepare_lines ops Qs) s") auto
  have "length ls = length Qs" using prepare_lines_length [OF pl] by simp
  then have "length Ps \<noteq> 0" "length Ps = length ls" using v by auto
  then have "returns_no_error (millerLoopLines ops Ps ls)"
    by (rule millerLoopLines_valid)
  then obtain res s2 where "run_state (millerLoopLines ops Ps ls) s1 = (Inr res, s2)"
    unfolding returns_no_error_def by blast
  then have "run_state (MillerLoop ops Ps Qs) s = ((Inr res, Qs'), s2)"
    using v pl by (auto simp: MillerLoop_def)
  then show "\<exists>res Qs' s'. run_state (MillerLoop ops Ps Qs) s = ((Inr res, Qs'), s')"
    by blast
next
  assume "length Ps = 0 \<or> length Ps \<noteq> length lines"
  then show "run_state (millerLoopLines ops Ps lines) s = (Inl ''invalid inputs sizes'', s)"
    by (auto simp: millerLoopLines_def)
next
  assume "length Ps \<noteq> 0 \<and> length Ps = length lines"
  then have "length Ps \<noteq> 0" "length Ps = length lines" by auto
  then have "returns_no_error (millerLoopLines ops Ps lines)"
    by (rule millerLoopLines_valid)
  then show "\<exists>res s'. run_state (millerLoopLines ops Ps lines) s = (Inr res, s')"
    unfolding returns_no_error_def by blast
qed

text \<open>
  No pair, one point against two, and one pair, from the builder state 0.
\<close>

theorem MillerLoop_input_validation_witness:
  "run_state (MillerLoop counting_ops [] []) 0 = ((Inl ''invalid inputs sizes'', []), 0)
   \<and> run_state (MillerLoop counting_ops [\<lparr>G1Affine.X = 1, G1Affine.Y = 2\<rparr>]
        [\<lparr>P = \<lparr>X = Ext2_One, Y = Ext2_One\<rparr>, Lines = None\<rparr>,
         \<lparr>P = \<lparr>X = Ext2_One, Y = Ext2_One\<rparr>, Lines = None\<rparr>]) 0
     = ((Inl ''invalid inputs sizes'',
         [\<lparr>P = \<lparr>X = Ext2_One, Y = Ext2_One\<rparr>, Lines = None\<rparr>,
          \<lparr>P = \<lparr>X = Ext2_One, Y = Ext2_One\<rparr>, Lines = None\<rparr>]), 0)
   \<and> (\<exists>res Qs' s'. run_state (MillerLoop counting_ops [\<lparr>G1Affine.X = 1, G1Affine.Y = 2\<rparr>]
        [\<lparr>P = \<lparr>X = Ext2_One, Y = Ext2_One\<rparr>, Lines = None\<rparr>]) 0 = ((Inr res, Qs'), s'))
   \<and> run_state (millerLoopLines counting_ops [\<lparr>G1Affine.X = 1, G1Affine.Y = 2\<rparr>] []) 0
     = (Inl ''invalid inputs sizes'', 0)
   \<and> (\<exists>res s'. run_state (millerLoopLines counting_ops [\<lparr>G1Affine.X = 1, G1Affine.Y = 2\<rparr>]
        [\<lambda>j i. \<lparr>R0 = Ext2_One, R1 = Ext2_One\<rparr>]) 0 = (Inr res, s'))"
proof -
  let ?p = "\<lparr>G1Affine.X = 1, G1Affine.Y = 2\<rparr>"
  let ?q = "\<lparr>P = \<lparr>X = Ext2_One, Y = Ext2_One\<rparr>, Lines = None\<rparr>"
  let ?l = "\<lambda>(j::nat) (i::nat). \<lparr>R0 = Ext2_One, R1 = Ext2_One\<rparr>"
  note t0 = MillerLoop_input_validation [of "[]" "[]" counting_ops 0 "[]"]
  note t1 = MillerLoop_input_validation [of "[?p]" "[?q, ?q]" counting_ops 0 "[]"]
  note t2 = MillerLoop_input_validation [of "[?p]" "[?q]" counting_ops 0 "[?l]"]
  show ?thesis using t0 t1 t2 by simp
qed

lemma signed_value_sum:
  "signed_value ds = (\<Sum>i<length ds. ds ! i * 2 ^ i)"
proof (induction ds)
  case Nil
  show ?case by simp
next
  case (Cons d ds)
  have "(\<Sum>i<Suc (length ds). (d # ds) ! i * 2 ^ i)
      = d + (\<Sum>i<length ds. (d # ds) ! Suc i * 2 ^ Suc i)"
    by (rule trans [OF sum.lessThan_Suc_shift]) simp
  also have "\<dots> = d + 2 * (\<Sum>i<length ds. ds ! i * 2 ^ i)"
    by (simp add: sum_distrib_left mult.assoc mult.left_commute)
  finally show ?case using Cons.IH by simp
qed

lemma loopCounter_length: "length loopCounter = 66"
  by (simp add: loopCounter_def)

lemma loopCounter_signed_value: "signed_value loopCounter = 29793968203157093288"
  by (simp add: loopCounter_def)

text \<open>
  Claim C7. Every digit of \<open>loopCounter\<close> is \<open>-1\<close>, \<open>0\<close> or \<open>1\<close>, and its signed binary
  expansion \<open>\<Sum>i. loopCounter[i] * 2^i\<close> is \<open>29793968203157093288 = 6 * x\<^sub>0 + 2\<close> for the
  seed \<open>x\<^sub>0 = 4965661367192848881\<close>. The table takes no argument: it is the same
  constant in every Miller loop.
\<close>

theorem loopCounter_digits_and_value:
  "length loopCounter = 66
   \<and> set loopCounter \<subseteq> {-1, 0, 1}
   \<and> (\<Sum>i<66. loopCounter ! i * 2 ^ i) = 29793968203157093288
   \<and> 6 * x0 + 2 = (29793968203157093288 :: int)
   \<and> x0 = 4965661367192848881"
proof -
  have "(\<Sum>i<66. loopCounter ! i * 2 ^ i) = signed_value loopCounter"
    using signed_value_sum [of loopCounter] by (simp add: loopCounter_length)
  moreover have "set loopCounter \<subseteq> {-1, 0, 1}"
    by (simp add: loopCounter_def)
  moreover have "6 * x0 + 2 = (29793968203157093288 :: int)"
    by (simp add: x0_def)
  ultimately show ?thesis
    by (simp add: loopCounter_length loopCounter_signed_value x0_def)
qed

end
